theory Spec2Isabelle
  imports Main "HOL-Library.Multiset" "HOL-Library.Char_ord" "HOL-Library.List_Lexorder"
    "HOL-Library.Product_Lexorder"
begin

section \<open>The lexer (package parse)\<close>

subsection \<open>Runes, positions and tokens\<close>

text \<open>
  A rune is modelled in the Latin-1 range U+0000 to U+00FF, one \<^typ>\<open>char\<close> per rune. In
  that range the classification of Go's \<^verbatim>\<open>unicode\<close> package is a fixed table, written
  out below, and a rune read from a UTF-8 stream is one byte wide below U+0080 and two
  bytes wide from there on. A Go \<^verbatim>\<open>string\<close> built from runes is kept as the list of
  its runes.
\<close>

type_synonym rune = char

definition RuneLen :: "rune \<Rightarrow> nat" where
  "RuneLen r = (if (of_char r :: nat) < 128 then 1 else 2)"

definition unicode_IsSpace :: "rune \<Rightarrow> bool" where
  "unicode_IsSpace r =
     ((of_char r :: nat) \<in> {0x09, 0x0A, 0x0B, 0x0C, 0x0D, 0x20, 0x85, 0xA0})"

definition unicode_IsDigit :: "rune \<Rightarrow> bool" where
  "unicode_IsDigit r = (let n = (of_char r :: nat) in 0x30 \<le> n \<and> n \<le> 0x39)"

definition unicode_IsLetter :: "rune \<Rightarrow> bool" where
  "unicode_IsLetter r =
     (let n = (of_char r :: nat) in
        (0x41 \<le> n \<and> n \<le> 0x5A) \<or> (0x61 \<le> n \<and> n \<le> 0x7A) \<or>
        n = 0xAA \<or> n = 0xB5 \<or> n = 0xBA \<or>
        (0xC0 \<le> n \<and> n \<le> 0xD6) \<or> (0xD8 \<le> n \<and> n \<le> 0xF6) \<or> 0xF8 \<le> n)"

text \<open>
  \<^verbatim>\<open>Pos\<close>: the fields are Go \<^verbatim>\<open>int\<close>s that start at 0 or 1 and only grow, kept as
  natural numbers.
\<close>

record Pos =
  Name :: string
  Offset :: nat
  Line :: nat
  Col :: nat

datatype tokType =
    tokEOF
  | tokApostrophe
  | tokAtSign
  | tokBacktick
  | tokBool
  | tokCharLiteral
  | tokCircumflex
  | tokComment
  | tokDispatch
  | tokKeyword
  | tokLambdaArg
  | tokLeftBrace
  | tokLeftBracket
  | tokLeftParen
  | tokNil
  | tokNumber
  | tokOctothorpe
  | tokRightBrace
  | tokRightBracket
  | tokRightParen
  | tokString
  | tokSymbol
  | tokTilde
  | tokError

text \<open>The struct \<^verbatim>\<open>token\<close> with its fields \<^verbatim>\<open>typ\<close>, \<^verbatim>\<open>pos\<close> and \<^verbatim>\<open>val\<close>.\<close>

record token =
  t_typ :: tokType
  t_pos :: Pos
  t_val :: string

subsection \<open>The buffered reader\<close>

text \<open>
  \<^verbatim>\<open>bufio.Reader\<close> as far as the lexer uses it: the runes still to be read, the error
  the stream ends with (\<open>None\<close> is \<^verbatim>\<open>io.EOF\<close>), and the rune that \<^verbatim>\<open>UnreadRune\<close>
  would put back, which exists only right after a successful \<^verbatim>\<open>ReadRune\<close>.
\<close>

record Reader =
  r_buf :: "rune list"
  r_err :: "string option"
  r_last :: "rune option"

datatype readError = io_EOF | io_Error string

definition ReadRune :: "Reader \<Rightarrow> (readError + rune \<times> nat) \<times> Reader" where
  "ReadRune rd =
     (case r_buf rd of
        [] \<Rightarrow> (Inl (case r_err rd of None \<Rightarrow> io_EOF | Some e \<Rightarrow> io_Error e),
               rd\<lparr>r_last := None\<rparr>)
      | r # rs \<Rightarrow> (Inr (r, RuneLen r), rd\<lparr>r_buf := rs, r_last := Some r\<rparr>))"

definition UnreadRune :: "Reader \<Rightarrow> Reader option" where
  "UnreadRune rd =
     (case r_last rd of
        None \<Rightarrow> None
      | Some r \<Rightarrow> Some (rd\<lparr>r_buf := r # r_buf rd, r_last := None\<rparr>))"

subsection \<open>The lexer state\<close>

text \<open>
  The struct \<^verbatim>\<open>lexer\<close>. The channel \<^verbatim>\<open>tokens\<close> is the list of the tokens sent so
  far, oldest first, with a flag for \<^verbatim>\<open>close\<close>; the blocking handoff to the consumer
  is not modelled.
\<close>

record lexer =
  l_name :: string
  l_input :: Reader
  l_pos :: Pos
  l_start :: Pos
  l_lastPos :: "Pos option"
  l_tokens :: "token list"
  l_closed :: bool
  l_val :: "rune list"

text \<open>
  A panic is a value: \<^verbatim>\<open>inputReadErr\<close> is the one that \<^verbatim>\<open>run\<close> recovers from, every
  other panic carries its message. A lexer operation either returns (\<open>Ok\<close>) or panics,
  and in both cases leaves the lexer in the state it has reached.
\<close>

datatype panicval = inputReadErr string | panicMsg string

datatype 'a exec = Ok 'a lexer | Panic panicval lexer

definition next_rune :: "lexer \<Rightarrow> (rune \<times> bool) exec" where
  "next_rune l =
     (case ReadRune (l_input l) of
        (Inl io_EOF, rd) \<Rightarrow> Ok (CHR 0x00, True) (l\<lparr>l_input := rd\<rparr>)
      | (Inl (io_Error e), rd) \<Rightarrow> Panic (inputReadErr e) (l\<lparr>l_input := rd\<rparr>)
      | (Inr (r, w), rd) \<Rightarrow>
          (let p = l_pos l;
               p1 = p\<lparr>Offset := Offset p + w, Col := Col p + w\<rparr>;
               p2 = (if r = CHR 0x0A then p1\<lparr>Line := Line p1 + 1, Col := 1\<rparr> else p1)
           in Ok (r, False)
                (l\<lparr>l_input := rd, l_lastPos := Some p, l_pos := p2, l_val := l_val l @ [r]\<rparr>)))"

definition back_rune :: "lexer \<Rightarrow> unit exec" where
  "back_rune l =
     (case l_lastPos l of
        None \<Rightarrow> Panic (panicMsg ''back() call not preceded by a next()'') l
      | Some p \<Rightarrow>
          (case UnreadRune (l_input l) of
             None \<Rightarrow> Panic (panicMsg ''should not happen'') l
           | Some rd \<Rightarrow>
               if l_val l = []
               then Panic (panicMsg ''slice bounds out of range'') (l\<lparr>l_input := rd, l_pos := p\<rparr>)
               else Ok () (l\<lparr>l_input := rd, l_pos := p, l_val := butlast (l_val l),
                             l_lastPos := None\<rparr>)))"

function scanWhile :: "(rune \<Rightarrow> bool) \<Rightarrow> lexer \<Rightarrow> unit exec" where
  "scanWhile f l =
     (case next_rune l of
        Panic e l1 \<Rightarrow> Panic e l1
      | Ok (r, at_eof) l1 \<Rightarrow>
          if at_eof then Ok () l1
          else if \<not> f r then back_rune l1
          else scanWhile f l1)"
  by pat_completeness auto
termination
  by (relation "measure (\<lambda>(f, l). length (r_buf (l_input l)))")
    (auto simp: next_rune_def ReadRune_def Let_def split: list.splits option.splits)

function scanUntil :: "string \<Rightarrow> lexer \<Rightarrow> unit exec" where
  "scanUntil chars l =
     (case next_rune l of
        Panic e l1 \<Rightarrow> Panic e l1
      | Ok (r, at_eof) l1 \<Rightarrow>
          if at_eof then Ok () l1
          else if r \<in> set chars then Ok () l1
          else scanUntil chars l1)"
  by pat_completeness auto
termination
  by (relation "measure (\<lambda>(s, l). length (r_buf (l_input l)))")
    (auto simp: next_rune_def ReadRune_def Let_def split: list.splits option.splits)

definition skip :: "lexer \<Rightarrow> lexer" where
  "skip l = l\<lparr>l_start := l_pos l, l_val := []\<rparr>"

definition emit :: "tokType \<Rightarrow> lexer \<Rightarrow> lexer" where
  "emit ty l =
     skip (l\<lparr>l_tokens := l_tokens l @ [\<lparr>t_typ = ty, t_pos = l_start l, t_val = l_val l\<rparr>]\<rparr>)"

definition synth :: "tokType \<Rightarrow> string \<Rightarrow> lexer \<Rightarrow> lexer" where
  "synth ty v l = l\<lparr>l_tokens := l_tokens l @ [\<lparr>t_typ = ty, t_pos = l_start l, t_val = v\<rparr>]\<rparr>"

definition errorf :: "string \<Rightarrow> lexer \<Rightarrow> lexer" where
  "errorf msg l =
     l\<lparr>l_tokens := l_tokens l @ [\<lparr>t_typ = tokError, t_pos = l_start l, t_val = msg\<rparr>]\<rparr>"

definition scanError :: "string \<Rightarrow> lexer \<Rightarrow> lexer" where
  "scanError e l =
     l\<lparr>l_tokens := l_tokens l @
        [\<lparr>t_typ = tokError, t_pos = l_start l, t_val = ''error while scanning: '' @ e\<rparr>]\<rparr>"

definition eof :: "lexer \<Rightarrow> lexer" where
  "eof l = emit tokEOF l"

subsection \<open>The states of the scanner\<close>

definition isWhitespace :: "rune \<Rightarrow> bool" where
  "isWhitespace r = (unicode_IsSpace r \<or> r = CHR '','')"

definition isSymbolChar :: "rune \<Rightarrow> bool" where
  "isSymbolChar r =
     (if unicode_IsLetter r \<or> unicode_IsDigit r then True
      else r \<in> set ''*+!-_?/.:$=><&'')"

text \<open>
  A \<^verbatim>\<open>stateFn\<close> is named by a constructor; \<^verbatim>\<open>nil\<close> is \<open>None\<close>. \<open>state s l\<close> runs the
  state function \<open>s\<close> on the lexer \<open>l\<close>.
\<close>

datatype stateFn =
    lexOuter
  | lexWhitespace
  | lexComment
  | lexString
  | lexCharLiteral
  | lexKeyword
  | lexLambdaArg
  | lexDispatch
  | lexNumber
  | lexSymbol

text \<open>The loop of \<^verbatim>\<open>lexString\<close>, with the local variable \<^verbatim>\<open>escaped\<close>.\<close>

function lexString_loop :: "bool \<Rightarrow> lexer \<Rightarrow> (stateFn option) exec" where
  "lexString_loop escaped l =
     (case next_rune l of
        Panic e l1 \<Rightarrow> Panic e l1
      | Ok (r, at_eof) l1 \<Rightarrow>
          if at_eof then Ok None (errorf ''reached EOF before string closing quote'' l1)
          else if r = CHR 0x22 then
            (if \<not> escaped then Ok (Some lexOuter) (emit tokString l1)
             else lexString_loop False l1)
          else if r = CHR 0x5C then lexString_loop (\<not> escaped) l1
          else lexString_loop False l1)"
  by pat_completeness auto
termination
  by (relation "measure (\<lambda>(e, l). length (r_buf (l_input l)))")
    (auto simp: next_rune_def ReadRune_def Let_def split: list.splits option.splits)

text \<open>
  The single-character tokens of \<^verbatim>\<open>lexOuter\<close>; \<open>None\<close> is the \<^verbatim>\<open>default\<close> branch
  that jumps to \<^verbatim>\<open>afterSingles\<close>.
\<close>

definition singleCharToken :: "rune \<Rightarrow> tokType option" where
  "singleCharToken r =
     (if r = CHR 0x27 then Some tokApostrophe
      else if r = CHR ''@'' then Some tokAtSign
      else if r = CHR 0x60 then Some tokBacktick
      else if r = CHR ''^'' then Some tokCircumflex
      else if r = CHR ''{'' then Some tokLeftBrace
      else if r = CHR ''['' then Some tokLeftBracket
      else if r = CHR ''('' then Some tokLeftParen
      else if r = CHR ''}'' then Some tokRightBrace
      else if r = CHR '']'' then Some tokRightBracket
      else if r = CHR '')'' then Some tokRightParen
      else if r = CHR ''~'' then Some tokTilde
      else None)"

definition state_lexOuter :: "lexer \<Rightarrow> (stateFn option) exec" where
  "state_lexOuter l =
     (case next_rune l of
        Panic e l1 \<Rightarrow> Panic e l1
      | Ok (r, at_eof) l1 \<Rightarrow>
          if at_eof then Ok None (eof l1)
          else if r = CHR '';'' then Ok (Some lexComment) l1
          else if r = CHR 0x22 then Ok (Some lexString) l1
          else if r = CHR 0x5C then Ok (Some lexCharLiteral) l1
          else if r = CHR '':'' then Ok (Some lexKeyword) l1
          else if r = CHR ''%'' then Ok (Some lexLambdaArg) l1
          else if r = CHR ''#'' then Ok (Some lexDispatch) l1
          else if r = CHR ''+'' \<or> r = CHR ''-'' then
            (case next_rune l1 of
               Panic e l2 \<Rightarrow> Panic e l2
             | Ok (r2, at_eof2) l2 \<Rightarrow>
                 if at_eof2 then Ok None (eof (emit tokSymbol l2))
                 else (case back_rune l2 of
                         Panic e l3 \<Rightarrow> Panic e l3
                       | Ok u l3 \<Rightarrow>
                           if CHR ''0'' \<le> r2 \<and> r2 \<le> CHR ''9'' then Ok (Some lexNumber) l3
                           else Ok (Some lexSymbol) l3))
          else (case singleCharToken r of
                  Some ty \<Rightarrow> Ok (Some lexOuter) (emit ty l1)
                | None \<Rightarrow>
                    if isWhitespace r then Ok (Some lexWhitespace) l1
                    else if CHR ''0'' \<le> r \<and> r \<le> CHR ''9'' then Ok (Some lexNumber) l1
                    else if isSymbolChar r then Ok (Some lexSymbol) l1
                    else Ok None (errorf (''unrecognized token starting with '' @ [r]) l1)))"

definition state_lexWhitespace :: "lexer \<Rightarrow> (stateFn option) exec" where
  "state_lexWhitespace l =
     (case scanWhile isWhitespace l of
        Panic e l1 \<Rightarrow> Panic e l1
      | Ok u l1 \<Rightarrow> Ok (Some lexOuter) (skip l1))"

definition state_lexComment :: "lexer \<Rightarrow> (stateFn option) exec" where
  "state_lexComment l =
     (case scanUntil [CHR 0x0A] l of
        Panic e l1 \<Rightarrow> Panic e l1
      | Ok u l1 \<Rightarrow> Ok (Some lexOuter) (emit tokComment l1))"

definition state_lexString :: "lexer \<Rightarrow> (stateFn option) exec" where
  "state_lexString l = lexString_loop False l"

definition state_lexCharLiteral :: "lexer \<Rightarrow> (stateFn option) exec" where
  "state_lexCharLiteral l =
     (case next_rune l of
        Panic e l1 \<Rightarrow> Panic e l1
      | Ok (r, at_eof) l1 \<Rightarrow>
          if at_eof then Ok None (errorf ''invalid character literal'' l1)
          else (case scanWhile isSymbolChar l1 of
                  Panic e l2 \<Rightarrow> Panic e l2
                | Ok u l2 \<Rightarrow> Ok (Some lexOuter) (emit tokCharLiteral l2)))"

text \<open>
  \<^verbatim>\<open>lexKeyword\<close>, \<^verbatim>\<open>lexLambdaArg\<close>, \<^verbatim>\<open>lexNumber\<close> and \<^verbatim>\<open>lexSymbol\<close> have one body:
  scan the symbol characters, emit a token of the state's type.
\<close>

definition scanSymbolChars :: "tokType \<Rightarrow> lexer \<Rightarrow> (stateFn option) exec" where
  "scanSymbolChars ty l =
     (case scanWhile isSymbolChar l of
        Panic e l1 \<Rightarrow> Panic e l1
      | Ok u l1 \<Rightarrow> Ok (Some lexOuter) (emit ty l1))"

definition state_lexDispatch :: "lexer \<Rightarrow> (stateFn option) exec" where
  "state_lexDispatch l =
     (case next_rune l of
        Panic e l1 \<Rightarrow> Panic e l1
      | Ok (r, at_eof) l1 \<Rightarrow>
          if at_eof then Ok None (emit tokOctothorpe l1)
          else (let v = l_val l1 in
                case back_rune l1 of
                  Panic e l2 \<Rightarrow> Panic e l2
                | Ok u l2 \<Rightarrow>
                    (let l3 = skip l2 in
                     if r \<in> {CHR ''{'', CHR ''('', CHR 0x27, CHR 0x22, CHR ''_''}
                     then Ok (Some lexOuter) (synth tokDispatch v l3)
                     else Ok (Some lexOuter) l3)))"

fun state :: "stateFn \<Rightarrow> lexer \<Rightarrow> (stateFn option) exec" where
  "state lexOuter l = state_lexOuter l"
| "state lexWhitespace l = state_lexWhitespace l"
| "state lexComment l = state_lexComment l"
| "state lexString l = state_lexString l"
| "state lexCharLiteral l = state_lexCharLiteral l"
| "state lexKeyword l = scanSymbolChars tokKeyword l"
| "state lexLambdaArg l = scanSymbolChars tokLambdaArg l"
| "state lexDispatch l = state_lexDispatch l"
| "state lexNumber l = scanSymbolChars tokNumber l"
| "state lexSymbol l = scanSymbolChars tokSymbol l"

subsection \<open>The driver\<close>

text \<open>
  How the states move the read cursor: a read takes one rune off the input, a pushback
  right after it restores the input, and no state other than \<^const>\<open>lexOuter\<close> leaves the
  input longer than it found it.
\<close>

declare scanWhile.simps [simp del] scanUntil.simps [simp del] lexString_loop.simps [simp del]

lemma next_rune_Ok:
  assumes "next_rune l = Ok (r, False) l1"
  shows "r_buf (l_input l) = r # r_buf (l_input l1)"
    and "r_last (l_input l1) = Some r"
    and "l_lastPos l1 = Some (l_pos l)"
    and "l_val l1 = l_val l @ [r]"
    and "l_tokens l1 = l_tokens l"
    and "l_start l1 = l_start l"
  using assms
  by (auto simp: next_rune_def ReadRune_def Let_def split: list.splits option.splits)

lemma next_rune_eof:
  assumes "next_rune l = Ok (r, True) l1"
  shows "r_buf (l_input l) = []" and "r_buf (l_input l1) = []" and "l_val l1 = l_val l"
    and "l_tokens l1 = l_tokens l" and "l_start l1 = l_start l" and "l_pos l1 = l_pos l"
  using assms
  by (auto simp: next_rune_def ReadRune_def Let_def split: list.splits option.splits)

lemma back_after_next:
  assumes "next_rune l = Ok (r, False) l1"
  shows "\<exists>l2. back_rune l1 = Ok () l2 \<and> r_buf (l_input l2) = r_buf (l_input l) \<and>
           l_pos l2 = l_pos l \<and> l_val l2 = l_val l \<and> l_tokens l2 = l_tokens l \<and>
           l_start l2 = l_start l"
  using assms
  by (auto simp: next_rune_def ReadRune_def back_rune_def UnreadRune_def Let_def
      split: list.splits option.splits)

lemma scanWhile_buf:
  "scanWhile f l = Ok u l' \<Longrightarrow> length (r_buf (l_input l')) \<le> length (r_buf (l_input l))"
proof (induction f l rule: scanWhile.induct)
  case (1 f l)
  note unf = "1.prems" [unfolded scanWhile.simps [of f l]]
  show ?case
  proof (cases "next_rune l")
    case (Panic e l1)
    with unf show ?thesis by simp
  next
    case (Ok x l1)
    obtain r at_eof where x: "x = (r, at_eof)" by (cases x)
    show ?thesis
    proof (cases at_eof)
      case True
      with Ok x unf have "l' = l1" by simp
      with Ok x True show ?thesis using next_rune_eof(1,2) [of l r l1] by simp
    next
      case False
      have nx: "next_rune l = Ok (r, False) l1" using Ok x False by simp
      show ?thesis
      proof (cases "f r")
        case True
        with nx unf have "scanWhile f l1 = Ok u l'" by simp
        with "1.IH" [OF nx refl] True
        have "length (r_buf (l_input l')) \<le> length (r_buf (l_input l1))" by simp
        with next_rune_Ok(1) [OF nx] show ?thesis by simp
      next
        case nf: False
        with nx unf have "back_rune l1 = Ok u l'" by simp
        with back_after_next [OF nx] show ?thesis by auto
      qed
    qed
  qed
qed

lemma scanUntil_buf:
  "scanUntil cs l = Ok u l' \<Longrightarrow> length (r_buf (l_input l')) \<le> length (r_buf (l_input l))"
proof (induction cs l rule: scanUntil.induct)
  case (1 cs l)
  note unf = "1.prems" [unfolded scanUntil.simps [of cs l]]
  show ?case
  proof (cases "next_rune l")
    case (Panic e l1)
    with unf show ?thesis by simp
  next
    case (Ok x l1)
    obtain r at_eof where x: "x = (r, at_eof)" by (cases x)
    show ?thesis
    proof (cases at_eof)
      case True
      with Ok x unf have "l' = l1" by simp
      with Ok x True show ?thesis using next_rune_eof(1,2) [of l r l1] by simp
    next
      case False
      have nx: "next_rune l = Ok (r, False) l1" using Ok x False by simp
      show ?thesis
      proof (cases "r \<in> set cs")
        case True
        with nx unf have "l' = l1" by simp
        with next_rune_Ok(1) [OF nx] show ?thesis by simp
      next
        case nf: False
        with nx unf have "scanUntil cs l1 = Ok u l'" by simp
        with "1.IH" [OF nx refl] nf
        have "length (r_buf (l_input l')) \<le> length (r_buf (l_input l1))" by simp
        with next_rune_Ok(1) [OF nx] show ?thesis by simp
      qed
    qed
  qed
qed

lemma emit_input [simp]: "l_input (emit ty l) = l_input l"
  by (simp add: emit_def skip_def)

lemma skip_input [simp]: "l_input (skip l) = l_input l"
  by (simp add: skip_def)

lemma synth_input [simp]: "l_input (synth ty v l) = l_input l"
  by (simp add: synth_def)

lemma errorf_input [simp]: "l_input (errorf m l) = l_input l"
  by (simp add: errorf_def)

lemma eof_input [simp]: "l_input (eof l) = l_input l"
  by (simp add: eof_def)

lemma lexString_loop_buf:
  "lexString_loop b l = Ok s l' \<Longrightarrow>
     length (r_buf (l_input l')) \<le> length (r_buf (l_input l))"
proof (induction b l rule: lexString_loop.induct)
  case (1 b l)
  note unf = "1.prems" [unfolded lexString_loop.simps [of b l]]
  show ?case
  proof (cases "next_rune l")
    case (Panic e l1)
    with unf show ?thesis by simp
  next
    case (Ok x l1)
    obtain r at_eof where x: "x = (r, at_eof)" by (cases x)
    show ?thesis
    proof (cases at_eof)
      case True
      with Ok x unf have "l_input l' = l_input l1" by auto
      with Ok x True show ?thesis using next_rune_eof(1,2) [of l r l1] by simp
    next
      case False
      have nx: "next_rune l = Ok (r, False) l1" using Ok x False by simp
      have step: "length (r_buf (l_input l1)) \<le> length (r_buf (l_input l))"
        using next_rune_Ok(1) [OF nx] by simp
      consider (quote) "r = CHR 0x22" "\<not> b" | (esc) "r = CHR 0x22" "b"
        | (bs) "r \<noteq> CHR 0x22" "r = CHR 0x5C" | (other) "r \<noteq> CHR 0x22" "r \<noteq> CHR 0x5C"
        by blast
      then show ?thesis
      proof cases
        case quote
        with nx unf have "l_input l' = l_input l1" by auto
        with step show ?thesis by simp
      next
        case esc
        with nx unf have "lexString_loop False l1 = Ok s l'" by simp
        with "1.IH"(1) [OF nx refl] esc step show ?thesis by fastforce
      next
        case bs
        with nx unf have "lexString_loop (\<not> b) l1 = Ok s l'" by simp
        with "1.IH"(2) [OF nx refl] bs step show ?thesis by fastforce
      next
        case other
        with nx unf have "lexString_loop False l1 = Ok s l'" by simp
        with "1.IH"(3) [OF nx refl] other step show ?thesis by fastforce
      qed
    qed
  qed
qed

lemma lexString_loop_next: "lexString_loop b l = Ok (Some s) l' \<Longrightarrow> s = lexOuter"
proof (induction b l rule: lexString_loop.induct)
  case (1 b l)
  note unf = "1.prems" [unfolded lexString_loop.simps [of b l]]
  show ?case
  proof (cases "next_rune l")
    case (Panic e l1)
    with unf show ?thesis by simp
  next
    case (Ok x l1)
    obtain r at_eof where x: "x = (r, at_eof)" by (cases x)
    from unf Ok x have ne: "\<not> at_eof" by auto
    then have nx: "next_rune l = Ok (r, False) l1" using Ok x by simp
    consider (quote) "r = CHR 0x22" "\<not> b" | (esc) "r = CHR 0x22" "b"
      | (bs) "r \<noteq> CHR 0x22" "r = CHR 0x5C" | (other) "r \<noteq> CHR 0x22" "r \<noteq> CHR 0x5C"
      by blast
    then show ?thesis
    proof cases
      case quote
      with nx unf show ?thesis by simp
    next
      case esc
      with nx unf have "lexString_loop False l1 = Ok (Some s) l'" by simp
      with "1.IH"(1) [OF nx refl] esc show ?thesis by fastforce
    next
      case bs
      with nx unf have "lexString_loop (\<not> b) l1 = Ok (Some s) l'" by simp
      with "1.IH"(2) [OF nx refl] bs show ?thesis by fastforce
    next
      case other
      with nx unf have "lexString_loop False l1 = Ok (Some s) l'" by simp
      with "1.IH"(3) [OF nx refl] other show ?thesis by fastforce
    qed
  qed
qed

lemma state_lexOuter_buf:
  assumes "state_lexOuter l = Ok (Some s) l'"
  shows "length (r_buf (l_input l')) < length (r_buf (l_input l))"
proof (cases "next_rune l")
  case (Panic e l1)
  with assms show ?thesis by (simp add: state_lexOuter_def)
next
  case (Ok x l1)
  obtain r at_eof where x: "x = (r, at_eof)" by (cases x)
  from assms Ok x have ne: "\<not> at_eof" by (cases at_eof) (simp_all add: state_lexOuter_def)
  then have nx: "next_rune l = Ok (r, False) l1" using Ok x by simp
  note b1 = next_rune_Ok(1) [OF nx]
  show ?thesis
  proof (cases "r = CHR ''+'' \<or> r = CHR ''-''")
    case False
    have "state_lexOuter l = Ok (Some s) l' \<longrightarrow> l_input l' = l_input l1"
      using nx False by (simp add: state_lexOuter_def split: option.split) auto
    with assms b1 show ?thesis by simp
  next
    case True
    then have sel: "r \<noteq> CHR '';''" "r \<noteq> CHR 0x22" "r \<noteq> CHR 0x5C" "r \<noteq> CHR '':''"
      "r \<noteq> CHR ''%''" "r \<noteq> CHR ''#''" by auto
    show ?thesis
    proof (cases "next_rune l1")
      case (Panic e l2)
      with assms nx True sel show ?thesis by (simp add: state_lexOuter_def)
    next
      case Ok2: (Ok x2 l2)
      obtain r2 e2 where x2: "x2 = (r2, e2)" by (cases x2)
      from assms nx True sel Ok2 x2 have "\<not> e2"
        by (cases e2) (simp_all add: state_lexOuter_def)
      then have nx2: "next_rune l1 = Ok (r2, False) l2" using Ok2 x2 by simp
      from back_after_next [OF nx2] obtain l3 where
        l3: "back_rune l2 = Ok () l3" "r_buf (l_input l3) = r_buf (l_input l1)" by blast
      have "state_lexOuter l = Ok (Some s) l' \<longrightarrow> l' = l3"
        using nx True sel nx2 l3(1) by (simp add: state_lexOuter_def)
      with assms l3(2) b1 show ?thesis by simp
    qed
  qed
qed

lemma scanSymbolChars_buf:
  "scanSymbolChars ty l = Ok s l' \<Longrightarrow>
     length (r_buf (l_input l')) \<le> length (r_buf (l_input l))"
  by (auto simp: scanSymbolChars_def split: exec.splits dest: scanWhile_buf)

lemma state_lexDispatch_buf:
  assumes "state_lexDispatch l = Ok s l'"
  shows "length (r_buf (l_input l')) \<le> length (r_buf (l_input l))"
proof (cases "next_rune l")
  case (Panic e l1)
  with assms show ?thesis by (simp add: state_lexDispatch_def)
next
  case (Ok x l1)
  obtain r at_eof where x: "x = (r, at_eof)" by (cases x)
  show ?thesis
  proof (cases at_eof)
    case True
    with assms Ok x have "l_input l' = l_input l1" by (auto simp: state_lexDispatch_def)
    with Ok x True show ?thesis using next_rune_eof(1,2) [of l r l1] by simp
  next
    case False
    then have nx: "next_rune l = Ok (r, False) l1" using Ok x by simp
    from back_after_next [OF nx] obtain l2 where
      l2: "back_rune l1 = Ok () l2" "r_buf (l_input l2) = r_buf (l_input l)" by blast
    from assms nx l2(1) have "l_input l' = l_input l2"
      by (auto simp: state_lexDispatch_def Let_def split: if_splits)
    with l2(2) show ?thesis by simp
  qed
qed

lemma state_buf:
  assumes "state s l = Ok s' l'" and "s \<noteq> lexOuter"
  shows "length (r_buf (l_input l')) \<le> length (r_buf (l_input l))"
proof (cases s)
  case lexOuter
  with assms show ?thesis by simp
next
  case lexWhitespace
  with assms show ?thesis
    by (auto simp: state_lexWhitespace_def split: exec.splits dest: scanWhile_buf)
next
  case lexComment
  with assms show ?thesis
    by (auto simp: state_lexComment_def split: exec.splits dest: scanUntil_buf)
next
  case lexString
  with assms show ?thesis by (auto simp: state_lexString_def dest: lexString_loop_buf)
next
  case lexCharLiteral
  show ?thesis
  proof (cases "next_rune l")
    case (Panic e l1)
    with assms lexCharLiteral show ?thesis by (simp add: state_lexCharLiteral_def)
  next
    case (Ok x l1)
    obtain r at_eof where x: "x = (r, at_eof)" by (cases x)
    show ?thesis
    proof (cases at_eof)
      case True
      with assms lexCharLiteral Ok x have "l_input l' = l_input l1"
        by (auto simp: state_lexCharLiteral_def)
      with Ok x True show ?thesis using next_rune_eof(1,2) [of l r l1] by simp
    next
      case False
      then have nx: "next_rune l = Ok (r, False) l1" using Ok x by simp
      from assms lexCharLiteral nx obtain l2 where
        "scanWhile isSymbolChar l1 = Ok () l2" "l_input l' = l_input l2"
        by (auto simp: state_lexCharLiteral_def split: exec.splits)
      with scanWhile_buf [of isSymbolChar l1 "()" l2] next_rune_Ok(1) [OF nx]
      show ?thesis by simp
    qed
  qed
next
  case lexKeyword
  with assms show ?thesis by (auto dest: scanSymbolChars_buf)
next
  case lexLambdaArg
  with assms show ?thesis by (auto dest: scanSymbolChars_buf)
next
  case lexDispatch
  with assms show ?thesis by (auto dest: state_lexDispatch_buf)
next
  case lexNumber
  with assms show ?thesis by (auto dest: scanSymbolChars_buf)
next
  case lexSymbol
  with assms show ?thesis by (auto dest: scanSymbolChars_buf)
qed

text \<open>
  The loop of \<^verbatim>\<open>run\<close>: call the current state until it returns \<^verbatim>\<open>nil\<close>. It ends on
  every input: \<^const>\<open>lexOuter\<close> reads a rune before it hands over to another state, and
  every other state hands back to \<^const>\<open>lexOuter\<close> or stops.
\<close>

function loop :: "stateFn option \<Rightarrow> lexer \<Rightarrow> unit exec" where
  "loop None l = Ok () l"
| "loop (Some s) l =
     (case state s l of
        Panic e l1 \<Rightarrow> Panic e l1
      | Ok s1 l1 \<Rightarrow> loop s1 l1)"
  by pat_completeness auto
termination
proof (relation "measure (\<lambda>(s, l). case s of None \<Rightarrow> 0
          | Some s \<Rightarrow> 2 * length (r_buf (l_input l)) + (if s = lexOuter then 1 else 2))")
  show "wf (measure (\<lambda>(s, l). case s of None \<Rightarrow> 0
          | Some s \<Rightarrow> 2 * length (r_buf (l_input l)) + (if s = lexOuter then 1 else 2)))"
    by simp
next
  fix s l s1 l1
  assume st: "state s l = Ok s1 l1"
  show "((s1, l1), (Some s, l)) \<in> measure (\<lambda>(s, l). case s of None \<Rightarrow> 0
          | Some s \<Rightarrow> 2 * length (r_buf (l_input l)) + (if s = lexOuter then 1 else 2))"
  proof (cases s1)
    case None
    then show ?thesis by simp
  next
    case (Some s2)
    show ?thesis
    proof (cases "s = lexOuter")
      case True
      with st Some have "length (r_buf (l_input l1)) < length (r_buf (l_input l))"
        using state_lexOuter_buf [of l s2 l1] by simp
      with Some True show ?thesis by simp
    next
      case False
      from state_buf [OF st False]
      have le: "length (r_buf (l_input l1)) \<le> length (r_buf (l_input l))" .
      from st False Some have "s2 = lexOuter"
        by (cases s)
          (auto simp: state_lexWhitespace_def state_lexComment_def state_lexString_def
            state_lexCharLiteral_def scanSymbolChars_def state_lexDispatch_def Let_def
            split: exec.splits if_splits prod.splits dest: lexString_loop_next)
      with Some False le show ?thesis by simp
    qed
  qed
qed

declare loop.simps(2) [simp del]

text \<open>
  \<^verbatim>\<open>run\<close> with its deferred \<^verbatim>\<open>recover\<close>: a read error becomes an error token and the
  channel stays open; any other panic goes on; a normal end closes the channel.
\<close>

definition run :: "lexer \<Rightarrow> unit exec" where
  "run l =
     (case loop (Some lexOuter) l of
        Ok u l1 \<Rightarrow> Ok () (l1\<lparr>l_closed := True\<rparr>)
      | Panic (inputReadErr e) l1 \<Rightarrow> Ok () (scanError e l1)
      | Panic (panicMsg m) l1 \<Rightarrow> Panic (panicMsg m) l1)"

text \<open>
  \<^verbatim>\<open>lex\<close> builds the lexer and starts \<^verbatim>\<open>run\<close> on it in a goroutine of its own.
  \<open>lex_tokens\<close> is what the consumer of the channel receives from then on.
\<close>

definition lex :: "string \<Rightarrow> Reader \<Rightarrow> lexer" where
  "lex nm inp =
     \<lparr>l_name = nm, l_input = inp,
      l_pos = \<lparr>Name = nm, Offset = 0, Line = 1, Col = 1\<rparr>,
      l_start = \<lparr>Name = nm, Offset = 0, Line = 1, Col = 1\<rparr>,
      l_lastPos = None, l_tokens = [], l_closed = False, l_val = []\<rparr>"

fun lexer_of :: "'a exec \<Rightarrow> lexer" where
  "lexer_of (Ok x l) = l"
| "lexer_of (Panic e l) = l"

definition lex_tokens :: "string \<Rightarrow> Reader \<Rightarrow> token list" where
  "lex_tokens nm inp = l_tokens (lexer_of (run (lex nm inp)))"

text \<open>
  For the examples: a reader over a string, which ends with \<^verbatim>\<open>io.EOF\<close>, and the
  tokens of a string as triples of type, offset and text, or as pairs of type and text.
\<close>

definition NewReader :: "string \<Rightarrow> Reader" where
  "NewReader s = \<lparr>r_buf = s, r_err = None, r_last = None\<rparr>"

definition tok_text :: "token \<Rightarrow> tokType \<times> string" where
  "tok_text t = (t_typ t, t_val t)"

definition lex_string :: "string \<Rightarrow> (tokType \<times> nat \<times> string) list" where
  "lex_string s =
     map (\<lambda>t. (t_typ t, Offset (t_pos t), t_val t)) (lex_tokens ''in'' (NewReader s))"

definition lex_texts :: "string \<Rightarrow> (tokType \<times> string) list" where
  "lex_texts s = map tok_text (lex_tokens ''in'' (NewReader s))"

section \<open>The transform engine (package format)\<close>

subsection \<open>Nodes\<close>

text \<open>
  Modelled from the spec: the node types of package \<^verbatim>\<open>parse\<close> (built by the parser,
  which is not among the sources). A node is a list, vector, map, set or function
  literal with its ordered children, or an atom: a symbol, keyword, string or number
  with its literal text, a comment with its text, or a newline. The five kinds of
  composite node differ in their kind only.
\<close>

datatype seqKind = ListK | VectorK | MapK | SetK | FnLiteralK

datatype node =
    SeqNode seqKind "node list"
  | SymbolNode string
  | KeywordNode string
  | StringNode string
  | NumberNode string
  | CommentNode string
  | NewlineNode

abbreviation ListNode :: "node list \<Rightarrow> node" where
  "ListNode \<equiv> SeqNode ListK"

abbreviation VectorNode :: "node list \<Rightarrow> node" where
  "VectorNode \<equiv> SeqNode VectorK"

abbreviation MapNode :: "node list \<Rightarrow> node" where
  "MapNode \<equiv> SeqNode MapK"

abbreviation SetNode :: "node list \<Rightarrow> node" where
  "SetNode \<equiv> SeqNode SetK"

abbreviation FnLiteralNode :: "node list \<Rightarrow> node" where
  "FnLiteralNode \<equiv> SeqNode FnLiteralK"

text \<open>
  Modelled from the spec: \<^verbatim>\<open>Children\<close> and \<^verbatim>\<open>SetChildren\<close> of the node contract. An
  atom has no children; the transforms replace the children of composite nodes only.
\<close>

fun Children :: "node \<Rightarrow> node list" where
  "Children (SeqNode k cs) = cs"
| "Children n = []"

fun SetChildren :: "node \<Rightarrow> node list \<Rightarrow> node" where
  "SetChildren (SeqNode k old) cs = SeqNode k cs"
| "SetChildren n cs = n"

text \<open>
  Modelled from the spec: the predicates of package \<^verbatim>\<open>goclj\<close> that tell the kinds of
  node apart (\<^verbatim>\<open>Newline\<close>, \<^verbatim>\<open>Comment\<close>, \<^verbatim>\<open>Vector\<close>, \<^verbatim>\<open>Keyword\<close>), and the two that
  recognise a form: \<^verbatim>\<open>FnFormSymbol\<close> is a list whose first child is one of the given
  symbols, \<^verbatim>\<open>FnFormKeyword\<close> a list whose first child is one of the given keywords.
\<close>

fun Newline :: "node \<Rightarrow> bool" where
  "Newline NewlineNode = True"
| "Newline n = False"

fun Comment :: "node \<Rightarrow> bool" where
  "Comment (CommentNode s) = True"
| "Comment n = False"

fun Vector :: "node \<Rightarrow> bool" where
  "Vector (SeqNode VectorK cs) = True"
| "Vector n = False"

fun Keyword :: "node \<Rightarrow> bool" where
  "Keyword (KeywordNode s) = True"
| "Keyword n = False"

fun FnFormSymbol :: "node \<Rightarrow> string list \<Rightarrow> bool" where
  "FnFormSymbol (SeqNode ListK (SymbolNode s # cs)) syms = (s \<in> set syms)"
| "FnFormSymbol n syms = False"

fun FnFormKeyword :: "node \<Rightarrow> string list \<Rightarrow> bool" where
  "FnFormKeyword (SeqNode ListK (KeywordNode s # cs)) kws = (s \<in> set kws)"
| "FnFormKeyword n kws = False"

text \<open>Modelled from the spec: the tree, a collection of top-level forms.\<close>

record Tree =
  Roots :: "node list"

datatype Transform =
    TransformSortImportRequire
  | TransformRemoveTrailingNewlines
  | TransformFixDefnArglistNewline
  | TransformFixDefmethodDispatchValNewline
  | TransformRemoveExtraBlankLines

text \<open>A \<^verbatim>\<open>map[Transform]bool\<close>: a transform that is not in the map reads as false.\<close>

type_synonym Transforms = "Transform \<Rightarrow> bool"

definition DefaultTransforms :: Transforms where
  "DefaultTransforms T = True"

subsection \<open>Sorting imports and requires\<close>

record importRequire =
  CommentsAbove :: "node list"
  CommentBeside :: "node option"
  Node :: node

fun listOrVector :: "node \<Rightarrow> bool" where
  "listOrVector (SeqNode ListK cs) = True"
| "listOrVector (SeqNode VectorK cs) = True"
| "listOrVector n = False"

text \<open>
  \<^verbatim>\<open>importRequireList.Less\<close>, on the two elements that the indices select. Go compares
  strings byte by byte, which is the lexicographic order of \<^typ>\<open>string\<close>.
\<close>

definition Less :: "importRequire \<Rightarrow> importRequire \<Rightarrow> bool" where
  "Less a b =
     (let n1 = Node a; n2 = Node b in
      case n1 of
        SymbolNode s1 \<Rightarrow>
          (case n2 of
             SymbolNode s2 \<Rightarrow> s1 < s2
           | _ \<Rightarrow> if Vector n2 then True else True)
      | _ \<Rightarrow>
          if listOrVector n1 then
            (if listOrVector n2 then
               (let children1 = Children n1; children2 = Children n2 in
                if length children1 = 0 then True
                else if length children2 = 0 then False
                else (case children1 ! 0 of
                        SymbolNode p1 \<Rightarrow>
                          (case children2 ! 0 of
                             SymbolNode p2 \<Rightarrow> p1 < p2
                           | _ \<Rightarrow> True)
                      | _ \<Rightarrow> False))
             else False)
          else False)"

text \<open>
  \<^verbatim>\<open>sort.Stable\<close> of Go's standard library, called with the order \<^const>\<open>Less\<close>. The
  library sorts each block of 20 elements by insertion sort and then merges the blocks.
  The model is the insertion sort: it is what the library runs on up to 20 elements, and
  on a strict weak order every stable sort returns the same list. \<open>sift\<close> is the inner
  loop, which moves the new element to the left while it is \<^const>\<open>Less\<close> than its left
  neighbour; the sorted part is kept with its last element first.
\<close>

fun sift :: "importRequire list \<Rightarrow> importRequire \<Rightarrow> importRequire list" where
  "sift [] x = [x]"
| "sift (y # ys) x = (if Less x y then y # sift ys x else x # y # ys)"

definition insertionSort :: "importRequire list \<Rightarrow> importRequire list" where
  "insertionSort xs = rev (foldl sift [] xs)"

definition sort_Stable :: "importRequire list \<Rightarrow> importRequire list" where
  "sort_Stable xs = insertionSort xs"

text \<open>
  The first loop of \<^verbatim>\<open>sortImportRequire\<close>: its state is \<^verbatim>\<open>sorted\<close> (here \<open>entries\<close>),
  \<^verbatim>\<open>lineComments\<close> and \<^verbatim>\<open>afterSemanticNode\<close>. The flag is set only when an entry has
  just been appended, so \<^verbatim>\<open>sorted[len(sorted)-1]\<close> is never read from an empty slice.
\<close>

fun collect ::
  "importRequire list \<times> node list \<times> bool \<Rightarrow> node \<Rightarrow> importRequire list \<times> node list \<times> bool"
where
  "collect (entries, lineComments, afterSemanticNode) (CommentNode s) =
     (if afterSemanticNode
      then (entries[length entries - 1 := (entries ! (length entries - 1))
              \<lparr>CommentBeside := Some (CommentNode s)\<rparr>], lineComments, afterSemanticNode)
      else (entries, lineComments @ [CommentNode s], afterSemanticNode))"
| "collect (entries, lineComments, afterSemanticNode) NewlineNode =
     (entries, lineComments, False)"
| "collect (entries, lineComments, afterSemanticNode) n =
     (entries @ [\<lparr>CommentsAbove = lineComments, CommentBeside = None, Node = n\<rparr>], [], True)"

text \<open>The nodes that the second loop appends for one entries entry.\<close>

definition emitEntry :: "importRequire \<Rightarrow> node list" where
  "emitEntry ir =
     concat (map (\<lambda>cn. [cn, NewlineNode]) (CommentsAbove ir)) @ [Node ir] @
     (case CommentBeside ir of None \<Rightarrow> [] | Some cn \<Rightarrow> [cn]) @ [NewlineNode]"

text \<open>
  \<^verbatim>\<open>sortImportRequire\<close>. The slice expressions \<^verbatim>\<open>nodes[1:]\<close> and \<^verbatim>\<open>nodes[0]\<close> panic
  on a node without children: that is the result \<open>None\<close>.
\<close>

definition sortImportRequire :: "node \<Rightarrow> node option" where
  "sortImportRequire n =
     (case Children n of
        [] \<Rightarrow> None
      | n0 # rest \<Rightarrow>
          (case foldl collect ([], [], False) rest of
             (entries, lineComments, afterSemanticNode) \<Rightarrow>
               (let newNodes = [n0] @ concat (map emitEntry (sort_Stable entries)) @
                      concat (map (\<lambda>cn. [cn, NewlineNode]) lineComments);
                    newNodes1 =
                      (if length newNodes \<ge> 2 \<and> \<not> Comment (newNodes ! (length newNodes - 2))
                       then butlast newNodes else newNodes)
                in Some (SetChildren n newNodes1))))"

definition sortNS :: "node \<Rightarrow> node option" where
  "sortNS ns =
     (case Children ns of
        [] \<Rightarrow> None
      | c # cs \<Rightarrow>
          map_option (\<lambda>cs1. SetChildren ns (c # cs1))
            (those (map (\<lambda>n. if FnFormKeyword n ['':require'', '':import'']
                              then sortImportRequire n else Some n) cs)))"

subsection \<open>The newline passes\<close>

text \<open>The loop of \<^verbatim>\<open>removeTrailingNewlines\<close> that cuts the slice \<^verbatim>\<open>nodes\<close> at its end.\<close>

function trimNewlines :: "node list \<Rightarrow> node list" where
  "trimNewlines nodes =
     (if length nodes > 0 then
        (if length nodes \<ge> 2 \<and> Comment (nodes ! (length nodes - 2)) then nodes
         else if \<not> Newline (nodes ! (length nodes - 1)) then nodes
         else trimNewlines (butlast nodes))
      else nodes)"
  by pat_completeness auto
termination
  by (relation "measure length") auto

declare trimNewlines.simps [simp del]

lemma set_trimNewlines: "set (trimNewlines nodes) \<subseteq> set nodes"
proof (induction nodes rule: trimNewlines.induct)
  case (1 nodes)
  show ?case
  proof (cases "length nodes > 0 \<and> \<not> (length nodes \<ge> 2 \<and> Comment (nodes ! (length nodes - 2)))
      \<and> Newline (nodes ! (length nodes - 1))")
    case True
    then have "trimNewlines nodes = trimNewlines (butlast nodes)"
      by (subst trimNewlines.simps) auto
    moreover have "set (trimNewlines (butlast nodes)) \<subseteq> set (butlast nodes)"
      using True by (intro "1.IH") auto
    moreover have "set (butlast nodes) \<subseteq> set nodes"
      by (auto dest: in_set_butlastD)
    ultimately show ?thesis by auto
  next
    case False
    then have "trimNewlines nodes = nodes"
      by (subst trimNewlines.simps) auto
    then show ?thesis by simp
  qed
qed

function removeTrailingNewlines :: "node \<Rightarrow> node" where
  "removeTrailingNewlines (SeqNode k nodes) =
     (if length nodes = 0 then SeqNode k nodes
      else SeqNode k (map removeTrailingNewlines (trimNewlines nodes)))"
| "removeTrailingNewlines (SymbolNode s) = SymbolNode s"
| "removeTrailingNewlines (KeywordNode s) = KeywordNode s"
| "removeTrailingNewlines (StringNode s) = StringNode s"
| "removeTrailingNewlines (NumberNode s) = NumberNode s"
| "removeTrailingNewlines (CommentNode s) = CommentNode s"
| "removeTrailingNewlines NewlineNode = NewlineNode"
  by pat_completeness auto
termination
proof (relation "measure size")
  fix k nodes x
  assume "x \<in> set (trimNewlines nodes)"
  then have "x \<in> set nodes" using set_trimNewlines by blast
  then have "size x < Suc (size_list size nodes)"
    by (induction nodes) auto
  then show "(x, SeqNode k nodes) \<in> measure size" by simp
qed simp

definition fixDefnArglist :: "node \<Rightarrow> node" where
  "fixDefnArglist defn =
     (let nodes = Children defn in
      if length nodes < 5 then defn
      else if \<not> Newline (nodes ! 2) \<or> Newline (nodes ! 4) then defn
      else if \<not> Vector (nodes ! 3) then defn
      else SetChildren defn (nodes[2 := nodes ! 3, 3 := nodes ! 2]))"

definition fixDefmethodDispatchVal :: "node \<Rightarrow> node" where
  "fixDefmethodDispatchVal defmethod =
     (let nodes = Children defmethod in
      if length nodes < 5 then defmethod
      else if \<not> Newline (nodes ! 2) then defmethod
      else if \<not> Keyword (nodes ! 3) then defmethod
      else SetChildren defmethod
             (if Newline (nodes ! 4) then take 2 nodes @ drop 3 nodes
              else nodes[2 := nodes ! 3, 3 := nodes ! 2]))"

text \<open>The loop of \<^verbatim>\<open>removeExtraBlankLines\<close>, with its counter \<^verbatim>\<open>newlines\<close>.\<close>

fun blankLines :: "nat \<Rightarrow> node list \<Rightarrow> node list" where
  "blankLines newlines [] = []"
| "blankLines newlines (node # nodes) =
     (let newlines1 = (if Newline node then newlines + 1 else 0) in
      if newlines1 \<le> 2 then node # blankLines newlines1 nodes
      else blankLines newlines1 nodes)"

definition removeExtraBlankLines :: "node list \<Rightarrow> node list" where
  "removeExtraBlankLines nodes = blankLines 0 nodes"

lemma set_blankLines: "set (blankLines c nodes) \<subseteq> set nodes"
  by (induction nodes arbitrary: c) (auto simp: Let_def)

function removeExtraBlankLinesRecursive :: "node \<Rightarrow> node" where
  "removeExtraBlankLinesRecursive (SeqNode k nodes) =
     (if length nodes = 0 then SeqNode k nodes
      else SeqNode k (map removeExtraBlankLinesRecursive
             (if length nodes > 2 then removeExtraBlankLines nodes else nodes)))"
| "removeExtraBlankLinesRecursive (SymbolNode s) = SymbolNode s"
| "removeExtraBlankLinesRecursive (KeywordNode s) = KeywordNode s"
| "removeExtraBlankLinesRecursive (StringNode s) = StringNode s"
| "removeExtraBlankLinesRecursive (NumberNode s) = NumberNode s"
| "removeExtraBlankLinesRecursive (CommentNode s) = CommentNode s"
| "removeExtraBlankLinesRecursive NewlineNode = NewlineNode"
  by pat_completeness auto
termination
proof (relation "measure size")
  fix k nodes x
  assume "x \<in> set (if 2 < length nodes then removeExtraBlankLines nodes else nodes)"
  then have "x \<in> set nodes"
    using set_blankLines [of 0 nodes] by (auto simp: removeExtraBlankLines_def split: if_splits)
  then have "size x < Suc (size_list size nodes)"
    by (induction nodes) auto
  then show "(x, SeqNode k nodes) \<in> measure size" by simp
qed simp

subsection \<open>The pipeline\<close>

text \<open>
  The body of the loop of \<^verbatim>\<open>applyTransforms\<close> for one root, and \<^verbatim>\<open>applyTransforms\<close>.
  The tree is changed in place in Go and returned here; \<open>None\<close> is a panic.
\<close>

definition applyRoot :: "Transforms \<Rightarrow> node \<Rightarrow> node option" where
  "applyRoot transforms root =
     (case (if transforms TransformSortImportRequire \<and> FnFormSymbol root [''ns'']
            then sortNS root else Some root) of
        None \<Rightarrow> None
      | Some r1 \<Rightarrow>
          (let r2 = (if transforms TransformRemoveTrailingNewlines
                     then removeTrailingNewlines r1 else r1);
               r3 = (if transforms TransformFixDefnArglistNewline \<and> FnFormSymbol r2 [''defn'']
                     then fixDefnArglist r2 else r2);
               r4 = (if transforms TransformFixDefmethodDispatchValNewline \<and>
                        FnFormSymbol r3 [''defmethod'']
                     then fixDefmethodDispatchVal r3 else r3);
               r5 = (if transforms TransformRemoveExtraBlankLines
                     then removeExtraBlankLinesRecursive r4 else r4)
           in Some r5))"

definition applyTransforms :: "Tree \<Rightarrow> Transforms \<Rightarrow> Tree option" where
  "applyTransforms t transforms =
     (case those (map (applyRoot transforms) (Roots t)) of
        None \<Rightarrow> None
      | Some roots \<Rightarrow>
          Some (t\<lparr>Roots := (if transforms TransformRemoveExtraBlankLines
                             then removeExtraBlankLines roots else roots)\<rparr>))"

section \<open>Notions for the properties\<close>

text \<open>
  The definitions that the properties of the transform engine and of the lexer are stated
  and proved with: keys, projections and invariants. None of them is part of the program.
\<close>

subsection \<open>Notions for the transform engine\<close>

text \<open>
  The order that \<^const>\<open>Less\<close> is meant to decide, as a key: a symbol, by its text; then
  an empty list or vector; then a list or vector that starts with a symbol, by that
  symbol's text; then a list or vector that starts with something else; then any other
  node. A list of entries is \<open>sortable\<close> when each is a symbol, a list or a vector and
  at most one of them is an empty list or vector: there \<^const>\<open>Less\<close> is this order.
\<close>

definition nodeKey :: "node \<Rightarrow> nat \<times> string" where
  "nodeKey n =
     (case n of
        SymbolNode s \<Rightarrow> (0, s)
      | SeqNode k cs \<Rightarrow>
          (if listOrVector n then
             (case cs of
                [] \<Rightarrow> (1, [])
              | SymbolNode p # rest \<Rightarrow> (2, p)
              | c # rest \<Rightarrow> (3, []))
           else (4, []))
      | _ \<Rightarrow> (4, []))"

definition irKey :: "importRequire \<Rightarrow> nat \<times> string" where
  "irKey e = nodeKey (Node e)"

fun emptySeq :: "node \<Rightarrow> bool" where
  "emptySeq (SeqNode k cs) = (listOrVector (SeqNode k cs) \<and> cs = [])"
| "emptySeq n = False"

fun symbolOrSeq :: "node \<Rightarrow> bool" where
  "symbolOrSeq (SymbolNode s) = True"
| "symbolOrSeq n = listOrVector n"

definition sortable :: "node list \<Rightarrow> bool" where
  "sortable ns = (list_all symbolOrSeq ns \<and> length (filter emptySeq ns) \<le> 1)"

text \<open>
  A semantic node is neither a comment nor a newline. An entry as the first loop of
  \<^verbatim>\<open>sortImportRequire\<close> builds it is well formed: the comments above and beside it are
  comment nodes and its node is semantic. \<open>emitAll\<close> is what the second loop and the
  loop for the unattached comments append after the first child.
\<close>

definition semantic :: "node \<Rightarrow> bool" where
  "semantic n = (\<not> Comment n \<and> \<not> Newline n)"

definition wf_entry :: "importRequire \<Rightarrow> bool" where
  "wf_entry e =
     (list_all Comment (CommentsAbove e) \<and>
      (case CommentBeside e of None \<Rightarrow> True | Some c \<Rightarrow> Comment c) \<and> semantic (Node e))"

definition emitAll :: "importRequire list \<Rightarrow> node list \<Rightarrow> node list" where
  "emitAll es lc = concat (map emitEntry es) @ concat (map (\<lambda>cn. [cn, NewlineNode]) lc)"

text \<open>
  The last step of \<^verbatim>\<open>sortImportRequire\<close>, which drops the trailing newline, and the
  entries and the unattached comments that its first loop ends with.
\<close>

definition dropTrailing :: "node list \<Rightarrow> node list" where
  "dropTrailing newNodes =
     (if length newNodes \<ge> 2 \<and> \<not> Comment (newNodes ! (length newNodes - 2))
      then butlast newNodes else newNodes)"

definition entriesOf :: "node list \<Rightarrow> importRequire list" where
  "entriesOf rest = fst (foldl collect ([], [], False) rest)"

definition trailingOf :: "node list \<Rightarrow> node list" where
  "trailingOf rest = fst (snd (foldl collect ([], [], False) rest))"

text \<open>
  A node without the newline nodes below it (\<open>denl\<close>), without the newline and comment
  nodes below it (\<open>sem\<close>), and the multiset of the comment nodes in it (\<open>comments\<close>),
  each at every depth; and the same for a list of roots.
\<close>

fun denl :: "node \<Rightarrow> node" where
  "denl (SeqNode k cs) = SeqNode k (map denl (filter (\<lambda>c. \<not> Newline c) cs))"
| "denl n = n"

fun sem :: "node \<Rightarrow> node" where
  "sem (SeqNode k cs) = SeqNode k (map sem (filter semantic cs))"
| "sem n = n"

fun comments :: "node \<Rightarrow> node multiset" where
  "comments (SeqNode k cs) = sum_list (map comments cs)"
| "comments (CommentNode s) = {#CommentNode s#}"
| "comments n = {#}"

definition denl_roots :: "node list \<Rightarrow> node list" where
  "denl_roots rs = map denl (filter (\<lambda>c. \<not> Newline c) rs)"

definition sem_roots :: "node list \<Rightarrow> node list" where
  "sem_roots rs = map sem (filter semantic rs)"

definition comments_roots :: "node list \<Rightarrow> node multiset" where
  "comments_roots rs = sum_list (map comments rs)"

text \<open>The passes of \<^const>\<open>applyRoot\<close> after the sort, as one function.\<close>

definition afterSort :: "Transforms \<Rightarrow> node \<Rightarrow> node" where
  "afterSort transforms r1 =
     (let r2 = (if transforms TransformRemoveTrailingNewlines
                then removeTrailingNewlines r1 else r1);
          r3 = (if transforms TransformFixDefnArglistNewline \<and> FnFormSymbol r2 [''defn'']
                then fixDefnArglist r2 else r2);
          r4 = (if transforms TransformFixDefmethodDispatchValNewline \<and>
                   FnFormSymbol r3 [''defmethod'']
                then fixDefmethodDispatchVal r3 else r3);
          r5 = (if transforms TransformRemoveExtraBlankLines
                then removeExtraBlankLinesRecursive r4 else r4)
      in r5)"

text \<open>
  What the sort pass does to one child of a namespace form and to one root, as total
  functions; \<^const>\<open>sortNS\<close> does not panic on a form that \<^const>\<open>FnFormSymbol\<close> accepts.
\<close>

definition sortDecl :: "node \<Rightarrow> node" where
  "sortDecl n =
     (if FnFormKeyword n ['':require'', '':import'']
      then (case sortImportRequire n of None \<Rightarrow> n | Some m \<Rightarrow> m) else n)"

definition sortRoot :: "node \<Rightarrow> node" where
  "sortRoot r =
     (if FnFormSymbol r [''ns'']
      then SetChildren r (hd (Children r) # map sortDecl (tl (Children r))) else r)"

text \<open>
  The configuration in which one transform is enabled, applying a configuration twice,
  the import and require declarations of the namespace forms of a tree, and the entries
  of a declaration.
\<close>

definition only :: "Transform \<Rightarrow> Transforms" where
  "only T = (\<lambda>T1. T1 = T)"

definition twice :: "Transforms \<Rightarrow> Tree \<Rightarrow> Tree option" where
  "twice transforms t =
     (case applyTransforms t transforms of
        None \<Rightarrow> None
      | Some t1 \<Rightarrow> applyTransforms t1 transforms)"

definition declarations :: "Tree \<Rightarrow> node list" where
  "declarations t =
     concat (map (\<lambda>r. if FnFormSymbol r [''ns'']
                       then filter (\<lambda>n. FnFormKeyword n ['':require'', '':import''])
                              (tl (Children r))
                       else []) (Roots t))"

definition entryNodes :: "node \<Rightarrow> node list" where
  "entryNodes d = filter semantic (tl (Children d))"

text \<open>
  What the sort may change: in a namespace form, each import or require declaration
  keeps its first child and the multiset of its entries; every other root and every
  other child of a namespace form stay as they are.
\<close>

fun entries_permuted :: "node \<Rightarrow> node \<Rightarrow> bool" where
  "entries_permuted (SeqNode k (c # cs)) (SeqNode k1 (c1 # cs1)) =
     (k = k1 \<and> c = c1 \<and> mset (filter semantic cs1) = mset (filter semantic cs))"
| "entries_permuted n n1 = False"

definition decl_permuted :: "node \<Rightarrow> node \<Rightarrow> bool" where
  "decl_permuted d d1 =
     (if FnFormKeyword d ['':require'', '':import''] then entries_permuted d d1 else d1 = d)"

fun children_permuted :: "node \<Rightarrow> node \<Rightarrow> bool" where
  "children_permuted (SeqNode k (c # cs)) (SeqNode k1 (c1 # cs1)) =
     (k = k1 \<and> c = c1 \<and> list_all2 decl_permuted cs cs1)"
| "children_permuted n n1 = False"

definition ns_permuted :: "node \<Rightarrow> node \<Rightarrow> bool" where
  "ns_permuted r r1 = (if FnFormSymbol r [''ns''] then children_permuted r r1 else r1 = r)"

text \<open>
  \<open>oneBeside a f ns\<close>: in the nodes \<open>ns\<close> no entry is followed by two comments before
  the next newline or entry. \<open>a\<close> says that the nodes continue the line of an entry,
  \<open>f\<close> that this entry has its comment already.
\<close>

fun oneBeside :: "bool \<Rightarrow> bool \<Rightarrow> node list \<Rightarrow> bool" where
  "oneBeside a f [] = True"
| "oneBeside a f (CommentNode s # ns) =
     (if a then \<not> f \<and> oneBeside True True ns else oneBeside False f ns)"
| "oneBeside a f (NewlineNode # ns) = oneBeside False f ns"
| "oneBeside a f (n # ns) = oneBeside True False ns"

text \<open>All nodes that the entries and the unattached comments hold.\<close>

definition entryContent :: "importRequire \<Rightarrow> node multiset" where
  "entryContent e =
     mset (CommentsAbove e) + mset (case CommentBeside e of None \<Rightarrow> [] | Some c \<Rightarrow> [c]) +
     {#Node e#}"

definition contentOf :: "importRequire list \<Rightarrow> node list \<Rightarrow> node multiset" where
  "contentOf es lc = sum_list (map entryContent es) + mset lc"

subsection \<open>Notions for the lexer\<close>






section \<open>Properties of the transform engine\<close>

subsection \<open>The order of the entries\<close>

text \<open>
  Two empty lists or vectors are each \<^const>\<open>Less\<close> than the other, and a node of
  another kind is neither before nor after a list or vector: outside the sortable lists
  \<^const>\<open>Less\<close> is not an order. On them it is the order of the keys, and the insertion
  sort is the stable sort by key.
\<close>

lemma Less_irKey:
  assumes "symbolOrSeq (Node a)" and "symbolOrSeq (Node b)"
    and "\<not> (emptySeq (Node a) \<and> emptySeq (Node b))"
  shows "Less a b = (irKey a < irKey b)"
proof (cases "Node a")
  case (SymbolNode s)
  with assms show ?thesis
    by (cases "Node b") (auto simp: Less_def irKey_def nodeKey_def split: list.splits node.splits)
next
  case (SeqNode k cs)
  note a = this
  show ?thesis
  proof (cases "Node b")
    case (SymbolNode s)
    with a assms show ?thesis
      by (auto simp: Less_def irKey_def nodeKey_def split: list.splits node.splits)
  next
    case b: (SeqNode k2 cs2)
    from a b assms have lv: "listOrVector (SeqNode k cs)" "listOrVector (SeqNode k2 cs2)" by auto
    show ?thesis
    proof (cases cs)
      case Nil
      with a b assms lv show ?thesis
        by (cases cs2) (auto simp: Less_def irKey_def nodeKey_def split: list.splits node.splits)
    next
      case (Cons c cs')
      with a b lv show ?thesis
        by (cases cs2; cases c; cases "hd cs2")
          (auto simp: Less_def irKey_def nodeKey_def split: list.splits node.splits)
    qed
  qed (use assms in auto)
qed (use assms in auto)

lemma mset_sift: "mset (sift acc x) = add_mset x (mset acc)"
  by (induction acc) auto

lemma set_sift: "set (sift acc x) = insert x (set acc)"
  by (induction acc) auto

lemma sorted_sift:
  assumes "\<forall>y\<in>set acc. Less x y = (irKey x < irKey y)"
    and "sorted (rev (map irKey acc))"
  shows "sorted (rev (map irKey (sift acc x)))"
  using assms
proof (induction acc)
  case Nil
  then show ?case by simp
next
  case (Cons y ys)
  show ?case
  proof (cases "Less x y")
    case True
    with Cons.prems have lt: "irKey x < irKey y" by simp
    from Cons.prems have s: "sorted (rev (map irKey ys))" and
      le: "\<forall>z\<in>set ys. irKey z \<le> irKey y"
      by (auto simp: sorted_append)
    from Cons.IH Cons.prems s have "sorted (rev (map irKey (sift ys x)))" by simp
    moreover have "\<forall>z\<in>set (sift ys x). irKey z \<le> irKey y"
      using le lt by (auto simp: set_sift)
    ultimately show ?thesis using True by (auto simp: sorted_append)
  next
    case False
    with Cons.prems have "irKey y \<le> irKey x" by auto
    moreover from Cons.prems have "\<forall>z\<in>set ys. irKey z \<le> irKey y"
      by (auto simp: sorted_append)
    ultimately show ?thesis using False Cons.prems by (auto simp: sorted_append)
  qed
qed

lemma filter_sift:
  assumes "\<forall>y\<in>set acc. Less x y = (irKey x < irKey y)"
  shows "filter (\<lambda>y. k = irKey y) (rev (sift acc x)) =
         filter (\<lambda>y. k = irKey y) (rev acc) @ (if k = irKey x then [x] else [])"
  using assms
proof (induction acc)
  case Nil
  then show ?case by simp
next
  case (Cons y ys)
  then show ?case by (cases "Less x y") auto
qed

lemma foldl_sift:
  assumes "list_all (\<lambda>e. symbolOrSeq (Node e)) (acc @ xs)"
    and "length (filter (\<lambda>e. emptySeq (Node e)) (acc @ xs)) \<le> 1"
    and "sorted (rev (map irKey acc))"
  shows "sorted (rev (map irKey (foldl sift acc xs))) \<and>
         mset (foldl sift acc xs) = mset acc + mset xs \<and>
         (\<forall>k. filter (\<lambda>y. k = irKey y) (rev (foldl sift acc xs)) =
              filter (\<lambda>y. k = irKey y) (rev acc @ xs))"
  using assms
proof (induction xs arbitrary: acc)
  case Nil
  then show ?case by simp
next
  case (Cons x xs)
  have agree: "\<forall>y\<in>set acc. Less x y = (irKey x < irKey y)"
  proof
    fix y assume y: "y \<in> set acc"
    have "\<not> (emptySeq (Node x) \<and> emptySeq (Node y))"
    proof
      assume e: "emptySeq (Node x) \<and> emptySeq (Node y)"
      with y have "filter (\<lambda>e. emptySeq (Node e)) acc \<noteq> []"
        by (auto simp: filter_empty_conv)
      then have "length (filter (\<lambda>e. emptySeq (Node e)) acc) \<ge> 1"
        by (cases "filter (\<lambda>e. emptySeq (Node e)) acc") auto
      with e Cons.prems(2) show False by simp
    qed
    with Cons.prems(1) y show "Less x y = (irKey x < irKey y)"
      by (intro Less_irKey) (auto simp: list_all_iff)
  qed
  have 1: "list_all (\<lambda>e. symbolOrSeq (Node e)) (sift acc x @ xs)"
    using Cons.prems(1) by (auto simp: list_all_iff set_sift)
  have "mset (filter (\<lambda>e. emptySeq (Node e)) (sift acc x)) =
        mset (filter (\<lambda>e. emptySeq (Node e)) (x # acc))"
    by (simp only: mset_filter mset_sift mset.simps)
  then have "length (filter (\<lambda>e. emptySeq (Node e)) (sift acc x)) =
        length (filter (\<lambda>e. emptySeq (Node e)) (x # acc))"
    by (metis size_mset)
  then have 2: "length (filter (\<lambda>e. emptySeq (Node e)) (sift acc x @ xs)) \<le> 1"
    using Cons.prems(2) by auto
  have 3: "sorted (rev (map irKey (sift acc x)))"
    using sorted_sift [OF agree Cons.prems(3)] .
  from Cons.IH [OF 1 2 3] filter_sift [OF agree] show ?case
    by (simp add: mset_sift)
qed

lemma sort_Stable_sort_key:
  assumes "sortable (map Node es)"
  shows "sort_Stable es = sort_key irKey es"
proof -
  from assms have "list_all (\<lambda>e. symbolOrSeq (Node e)) es"
    and "length (filter (\<lambda>e. emptySeq (Node e)) es) \<le> 1"
    by (auto simp: sortable_def list_all_iff filter_map comp_def)
  with foldl_sift [of "[]" es]
  have s: "sorted (rev (map irKey (foldl sift [] es)))"
    and m: "mset (foldl sift [] es) = mset es"
    and f: "\<And>k. filter (\<lambda>y. k = irKey y) (rev (foldl sift [] es)) = filter (\<lambda>y. k = irKey y) es"
    by auto
  have "sort_key irKey es = rev (foldl sift [] es)"
  proof (rule properties_for_sort_key)
    show "mset (rev (foldl sift [] es)) = mset es" using m by simp
    show "sorted (map irKey (rev (foldl sift [] es)))" using s by (simp add: rev_map)
    fix k
    show "filter (\<lambda>x. irKey k = irKey x) (rev (foldl sift [] es)) =
          filter (\<lambda>x. irKey k = irKey x) es" using f by simp
  qed
  then show ?thesis by (simp add: sort_Stable_def insertionSort_def)
qed

lemma mset_sort_Stable: "mset (sort_Stable es) = mset es"
proof -
  have "mset (foldl sift acc xs) = mset acc + mset xs" for acc xs
    by (induction xs arbitrary: acc) (auto simp: mset_sift)
  then show ?thesis by (simp add: sort_Stable_def insertionSort_def)
qed

lemma sortable_mset: "mset ns = mset ms \<Longrightarrow> sortable ns = sortable ms"
proof -
  assume a: "mset ns = mset ms"
  then have "mset (filter emptySeq ns) = mset (filter emptySeq ms)" by simp
  then have "length (filter emptySeq ns) = length (filter emptySeq ms)" by (metis size_mset)
  moreover from a have "set ns = set ms" by (metis set_mset_mset)
  ultimately show ?thesis by (simp add: sortable_def list_all_iff)
qed

lemma sort_Stable_idem:
  assumes "sortable (map Node es)"
  shows "sort_Stable (sort_Stable es) = sort_Stable es"
proof -
  have "mset (map Node (sort_Stable es)) = mset (map Node es)"
    using mset_sort_Stable [of es] by (metis mset_map)
  from sortable_mset [OF this] assms have "sortable (map Node (sort_Stable es))" by simp
  then have "sort_Stable (sort_Stable es) = sort_key irKey (sort_Stable es)"
    by (rule sort_Stable_sort_key)
  also have "\<dots> = sort_key irKey (sort_key irKey es)"
    using assms by (simp add: sort_Stable_sort_key)
  also have "\<dots> = sort_key irKey es" by (simp add: sort_key_id_if_sorted)
  also have "\<dots> = sort_Stable es" using assms by (simp add: sort_Stable_sort_key)
  finally show ?thesis .
qed

lemma map_Node_sort_key: "map Node (sort_key irKey es) = sort_key nodeKey (map Node es)"
proof (induction es)
  case Nil
  then show ?case by simp
next
  case (Cons e es)
  have "map Node (insort_key irKey x xs) = insort_key nodeKey (Node x) (map Node xs)" for x xs
    by (induction xs) (auto simp: irKey_def)
  with Cons show ?case by simp
qed

subsection \<open>Collecting and emitting the entries\<close>

lemma map_Node_update:
  "map Node (es[i := (es ! i)\<lparr>CommentBeside := c\<rparr>]) = map Node es"
  by (cases "i < length es") (simp_all add: map_update list_update_same_conv list_update_beyond)

lemma collect_Node:
  "map Node (fst (foldl collect (es, lc, asn) xs)) = map Node es @ filter semantic xs"
proof (induction xs arbitrary: es lc asn)
  case Nil
  then show ?case by simp
next
  case (Cons x xs)
  show ?case
    by (cases x) (simp_all add: Cons.IH semantic_def map_Node_update)
qed

lemma collect_wf:
  assumes "list_all wf_entry es" and "list_all Comment lc"
  shows "list_all wf_entry (fst (foldl collect (es, lc, asn) xs)) \<and>
         list_all Comment (fst (snd (foldl collect (es, lc, asn) xs)))"
  using assms
proof (induction xs arbitrary: es lc asn)
  case Nil
  then show ?case by simp
next
  case (Cons x xs)
  show ?case
  proof (cases x)
    case (CommentNode s)
    show ?thesis
    proof (cases asn)
      case True
      have "list_all wf_entry (es[length es - 1 := (es ! (length es - 1))
              \<lparr>CommentBeside := Some (CommentNode s)\<rparr>])"
      proof (cases "es = []")
        case True
        then show ?thesis by simp
      next
        case False
        then have i: "length es - 1 < length es" by simp
        with Cons.prems(1) have "wf_entry (es ! (length es - 1))"
          by (simp add: list_all_length)
        then have "wf_entry ((es ! (length es - 1))\<lparr>CommentBeside := Some (CommentNode s)\<rparr>)"
          by (simp add: wf_entry_def)
        with Cons.prems(1) show ?thesis
          by (auto simp: list_all_iff dest!: subsetD [OF set_update_subset_insert])
      qed
      with Cons.IH [OF this Cons.prems(2)] CommentNode True show ?thesis by simp
    next
      case False
      with Cons.IH [of es "lc @ [CommentNode s]"] Cons.prems CommentNode show ?thesis by simp
    qed
  qed (use Cons.IH [of es lc False] Cons.IH [of "es @ [\<lparr>CommentsAbove = lc, CommentBeside = None, Node = x\<rparr>]" "[]" True] Cons.prems
       in \<open>simp_all add: wf_entry_def semantic_def\<close>)
qed

lemma collect_above:
  assumes "list_all Comment cs"
  shows "foldl collect (es, lc, False) (concat (map (\<lambda>cn. [cn, NewlineNode]) cs)) =
         (es, lc @ cs, False)"
  using assms
proof (induction cs arbitrary: lc)
  case Nil
  then show ?case by simp
next
  case (Cons c cs)
  then obtain s where "c = CommentNode s" by (cases c) auto
  with Cons show ?case by simp
qed

lemma collect_semantic:
  assumes "semantic n"
  shows "collect (es, lc, asn) n =
         (es @ [\<lparr>CommentsAbove = lc, CommentBeside = None, Node = n\<rparr>], [], True)"
  using assms by (cases n) (simp_all add: semantic_def)

lemma collect_emitEntry:
  assumes "wf_entry e"
  shows "foldl collect (es, [], False) (emitEntry e) = (es @ [e], [], False)"
proof -
  from assms have a: "list_all Comment (CommentsAbove e)" and n: "semantic (Node e)"
    by (auto simp: wf_entry_def)
  show ?thesis
  proof (cases "CommentBeside e")
    case None
    then have "e = \<lparr>CommentsAbove = CommentsAbove e, CommentBeside = None, Node = Node e\<rparr>"
      by simp
    with None show ?thesis
      by (simp add: emitEntry_def collect_above [OF a] collect_semantic [OF n])
  next
    case (Some c)
    with assms obtain s where c: "c = CommentNode s" by (cases c) (auto simp: wf_entry_def)
    from Some have "e = \<lparr>CommentsAbove = CommentsAbove e, CommentBeside = Some c, Node = Node e\<rparr>"
      by simp
    with Some c show ?thesis
      by (simp add: emitEntry_def collect_above [OF a] collect_semantic [OF n])
  qed
qed

lemma collect_emitAll:
  assumes "list_all wf_entry es" and "list_all Comment lc"
  shows "foldl collect (es0, [], False) (emitAll es lc) = (es0 @ es, lc, False)"
proof -
  have "foldl collect (es0, [], False) (concat (map emitEntry es)) = (es0 @ es, [], False)"
    using assms(1)
  proof (induction es arbitrary: es0)
    case Nil
    then show ?case by simp
  next
    case (Cons e es)
    then show ?case by (simp add: collect_emitEntry)
  qed
  with collect_above [OF assms(2), of "es0 @ es" "[]"] show ?thesis
    by (simp add: emitAll_def)
qed

lemma collect_butlast:
  assumes "ys \<noteq> []" and "last ys = NewlineNode"
  shows "fst (foldl collect st (butlast ys)) = fst (foldl collect st ys) \<and>
         fst (snd (foldl collect st (butlast ys))) = fst (snd (foldl collect st ys))"
proof -
  from assms have "ys = butlast ys @ [NewlineNode]" by (metis append_butlast_last_id)
  then have "foldl collect st ys = collect (foldl collect st (butlast ys)) NewlineNode"
    by (metis foldl_append foldl_Cons foldl_Nil)
  then show ?thesis by (cases "foldl collect st (butlast ys)") simp
qed

lemma emitAll_last:
  assumes "emitAll es lc \<noteq> []"
  shows "last (emitAll es lc) = NewlineNode"
proof (cases "lc = []")
  case False
  then have "concat (map (\<lambda>cn. [cn, NewlineNode]) lc) \<noteq> []" by (cases lc) auto
  moreover have "last (concat (map (\<lambda>cn. [cn, NewlineNode]) lc)) = NewlineNode"
    using False by (induction lc rule: rev_induct) auto
  ultimately show ?thesis by (simp add: emitAll_def)
next
  case True
  with assms have "es \<noteq> []" by (auto simp: emitAll_def)
  then have "last (concat (map emitEntry es)) = NewlineNode"
    by (induction es rule: rev_induct) (auto simp: emitEntry_def)
  moreover from \<open>es \<noteq> []\<close> have "concat (map emitEntry es) \<noteq> []"
    by (cases es) (auto simp: emitEntry_def)
  ultimately show ?thesis using True by (simp add: emitAll_def)
qed

lemma sortImportRequire_Cons:
  assumes "Children n = n0 # rest"
  shows "sortImportRequire n =
     Some (SetChildren n (dropTrailing (n0 #
       emitAll (sort_Stable (fst (foldl collect ([], [], False) rest)))
         (fst (snd (foldl collect ([], [], False) rest))))))"
proof (cases "foldl collect ([], [], False) rest")
  case (fields es lc asn)
  show ?thesis
    by (simp only: sortImportRequire_def assms fields dropTrailing_def emitAll_def Let_def
        list.case prod.case fst_conv snd_conv append_Cons append_Nil)
qed

lemma collect_dropTrailing:
  assumes "list_all wf_entry es" and "list_all Comment lc"
  shows "fst (foldl collect ([], [], False) (tl (dropTrailing (n0 # emitAll es lc)))) = es \<and>
         fst (snd (foldl collect ([], [], False) (tl (dropTrailing (n0 # emitAll es lc))))) = lc"
proof (cases "dropTrailing (n0 # emitAll es lc) = n0 # emitAll es lc")
  case True
  then show ?thesis by (simp add: collect_emitAll [OF assms])
next
  case False
  then have ne: "emitAll es lc \<noteq> []" and
    d: "dropTrailing (n0 # emitAll es lc) = n0 # butlast (emitAll es lc)"
    by (auto simp: dropTrailing_def split: if_splits)
  from collect_butlast [OF ne emitAll_last [OF ne]] d show ?thesis
    by (simp add: collect_emitAll [OF assms])
qed

lemma sortImportRequire_idem:
  assumes "sortImportRequire n = Some n1" and "sortable (filter semantic (tl (Children n)))"
  shows "sortImportRequire n1 = Some n1"
proof -
  from assms(1) obtain n0 rest where ch: "Children n = n0 # rest"
    by (cases "Children n") (auto simp: sortImportRequire_def)
  then obtain k where n: "n = SeqNode k (n0 # rest)" by (cases n) auto
  define es where "es = fst (foldl collect ([], [], False) rest)"
  define lc where "lc = fst (snd (foldl collect ([], [], False) rest))"
  from collect_wf [of "[]" "[]" False rest]
  have wf: "list_all wf_entry es" and wl: "list_all Comment lc" by (simp_all add: es_def lc_def)
  have ms: "mset (sort_Stable es) = mset es" by (rule mset_sort_Stable)
  then have "set (sort_Stable es) = set es" by (metis set_mset_mset)
  with wf have wfs: "list_all wf_entry (sort_Stable es)" by (simp add: list_all_iff)
  from assms(1) sortImportRequire_Cons [OF ch]
  have n1: "n1 = SeqNode k (dropTrailing (n0 # emitAll (sort_Stable es) lc))"
    by (simp add: n es_def lc_def)
  have "dropTrailing (n0 # emitAll (sort_Stable es) lc) \<noteq> []"
    by (auto simp: dropTrailing_def)
  then obtain m0 rest1 where
    dt: "dropTrailing (n0 # emitAll (sort_Stable es) lc) = m0 # rest1"
    by (cases "dropTrailing (n0 # emitAll (sort_Stable es) lc)") auto
  have "m0 = n0" using dt by (auto simp: dropTrailing_def split: if_splits)
  with dt have rest1: "rest1 = tl (dropTrailing (n0 # emitAll (sort_Stable es) lc))" by simp
  from collect_dropTrailing [OF wfs wl, of n0] rest1
  have c1: "fst (foldl collect ([], [], False) rest1) = sort_Stable es"
    and c2: "fst (snd (foldl collect ([], [], False) rest1)) = lc" by simp_all
  from collect_Node [of "[]" "[]" False rest] have "map Node es = filter semantic rest"
    by (simp add: es_def)
  with assms(2) ch have "sortable (map Node es)" by simp
  then have idem: "sort_Stable (sort_Stable es) = sort_Stable es" by (rule sort_Stable_idem)
  have "Children n1 = m0 # rest1" using n1 dt by simp
  from sortImportRequire_Cons [OF this] c1 c2 idem \<open>m0 = n0\<close> n1 show ?thesis by simp
qed

subsection \<open>The sorted entries\<close>

lemma sortImportRequire_out:
  assumes "Children n = n0 # rest"
  shows "\<exists>k rest1. n = SeqNode k (n0 # rest) \<and>
           sortImportRequire n = Some (SeqNode k (n0 # rest1)) \<and>
           n0 # rest1 = dropTrailing (n0 # emitAll (sort_Stable (entriesOf rest)) (trailingOf rest)) \<and>
           entriesOf rest1 = sort_Stable (entriesOf rest) \<and>
           trailingOf rest1 = trailingOf rest"
proof -
  from assms obtain k where n: "n = SeqNode k (n0 # rest)" by (cases n) auto
  define es where "es = entriesOf rest"
  define lc where "lc = trailingOf rest"
  from collect_wf [of "[]" "[]" False rest]
  have wf: "list_all wf_entry es" and wl: "list_all Comment lc"
    by (simp_all add: es_def lc_def entriesOf_def trailingOf_def)
  have "set (sort_Stable es) = set es" using mset_sort_Stable [of es] by (metis set_mset_mset)
  with wf have wfs: "list_all wf_entry (sort_Stable es)" by (simp add: list_all_iff)
  have "dropTrailing (n0 # emitAll (sort_Stable es) lc) \<noteq> []"
    by (auto simp: dropTrailing_def)
  then obtain m0 rest1 where
    dt: "dropTrailing (n0 # emitAll (sort_Stable es) lc) = m0 # rest1"
    by (cases "dropTrailing (n0 # emitAll (sort_Stable es) lc)") auto
  have m0: "m0 = n0" using dt by (auto simp: dropTrailing_def split: if_splits)
  with dt have rest1: "rest1 = tl (dropTrailing (n0 # emitAll (sort_Stable es) lc))" by simp
  from collect_dropTrailing [OF wfs wl, of n0] rest1
  have "entriesOf rest1 = sort_Stable es" and "trailingOf rest1 = lc"
    by (simp_all add: entriesOf_def trailingOf_def)
  moreover from sortImportRequire_Cons [OF assms] dt m0
  have "sortImportRequire n = Some (SeqNode k (n0 # rest1))"
    by (simp add: n es_def lc_def entriesOf_def trailingOf_def)
  ultimately show ?thesis using n dt m0 by (auto simp: es_def lc_def)
qed

lemma semantic_entriesOf: "map Node (entriesOf rest) = filter semantic rest"
  using collect_Node [of "[]" "[]" False rest] by (simp add: entriesOf_def)

text \<open>
  C8, as the claim states it: the entries are sorted by a stable total order, ties broken
  by the original position, in which list and vector entries are ordered by their leading
  symbol. Two empty entries, which tie, come out in the opposite order; and the vector
  \<^verbatim>\<open>[b.c]\<close> stays before \<^verbatim>\<open>[a.b]\<close> when the keyword \<^verbatim>\<open>:reload\<close> stands between them.
\<close>

theorem import_order_counterexample:
  "sortImportRequire (ListNode [KeywordNode '':require'', ListNode [], NewlineNode, VectorNode []]) =
     Some (ListNode [KeywordNode '':require'', VectorNode [], NewlineNode, ListNode []]) \<and>
   sortImportRequire (ListNode [KeywordNode '':require'', VectorNode [SymbolNode ''b.c''],
       NewlineNode, KeywordNode '':reload'', NewlineNode, VectorNode [SymbolNode ''a.b'']]) =
     Some (ListNode [KeywordNode '':require'', VectorNode [SymbolNode ''b.c''],
       NewlineNode, KeywordNode '':reload'', NewlineNode, VectorNode [SymbolNode ''a.b'']])"
  by code_simp

text \<open>
  C8, amended: when every entry is a bare symbol, a list or a vector, and at most one
  entry is an empty list or vector, the entries come out stably sorted (ties in their
  original order) by the key \<^const>\<open>nodeKey\<close>: bare symbols first, ordered by their
  text; then the empty list or vector; then the lists and vectors whose leading element
  is a symbol, ordered by the text of that symbol; then the lists and vectors whose
  leading element is not a symbol. The first child of the form stays in front. In
  particular the entries \<^verbatim>\<open>[b.c] [a.b] c.d\<close> come out as \<^verbatim>\<open>c.d [a.b] [b.c]\<close>.
\<close>

theorem import_require_sorted_by_key:
  "(Children n = n0 # rest \<longrightarrow> sortable (filter semantic rest) \<longrightarrow>
      (\<exists>out. sortImportRequire n = Some out \<and> hd (Children out) = n0 \<and>
         filter semantic (tl (Children out)) = sort_key nodeKey (filter semantic rest))) \<and>
   sortImportRequire (ListNode [KeywordNode '':require'', VectorNode [SymbolNode ''b.c''],
       NewlineNode, VectorNode [SymbolNode ''a.b''], NewlineNode, SymbolNode ''c.d'']) =
     Some (ListNode [KeywordNode '':require'', SymbolNode ''c.d'', NewlineNode,
       VectorNode [SymbolNode ''a.b''], NewlineNode, VectorNode [SymbolNode ''b.c'']])"
proof (intro conjI impI)
  assume ch: "Children n = n0 # rest" and so: "sortable (filter semantic rest)"
  from sortImportRequire_out [OF ch] obtain k rest1 where
    out: "sortImportRequire n = Some (SeqNode k (n0 # rest1))"
    and es: "entriesOf rest1 = sort_Stable (entriesOf rest)" by blast
  from so have "sortable (map Node (entriesOf rest))" by (simp add: semantic_entriesOf)
  then have "sort_Stable (entriesOf rest) = sort_key irKey (entriesOf rest)"
    by (rule sort_Stable_sort_key)
  with es have "map Node (entriesOf rest1) = sort_key nodeKey (map Node (entriesOf rest))"
    by (simp add: map_Node_sort_key)
  then have "filter semantic rest1 = sort_key nodeKey (filter semantic rest)"
    by (simp add: semantic_entriesOf)
  with out show "\<exists>out. sortImportRequire n = Some out \<and> hd (Children out) = n0 \<and>
         filter semantic (tl (Children out)) = sort_key nodeKey (filter semantic rest)"
    by simp
next
  show "sortImportRequire (ListNode [KeywordNode '':require'', VectorNode [SymbolNode ''b.c''],
       NewlineNode, VectorNode [SymbolNode ''a.b''], NewlineNode, SymbolNode ''c.d'']) =
     Some (ListNode [KeywordNode '':require'', SymbolNode ''c.d'', NewlineNode,
       VectorNode [SymbolNode ''a.b''], NewlineNode, VectorNode [SymbolNode ''b.c'']])"
    by code_simp
qed

text \<open>The theorem at a form with a comment beside an entry and an empty vector.\<close>

theorem import_require_sorted_by_key_witness:
  "\<exists>out. sortImportRequire (ListNode [KeywordNode '':require'', VectorNode [SymbolNode ''b.c''],
       CommentNode ''; x'', NewlineNode, VectorNode [], NewlineNode, SymbolNode ''c.d'']) = Some out \<and>
     hd (Children out) = KeywordNode '':require'' \<and>
     filter semantic (tl (Children out)) =
       [SymbolNode ''c.d'', VectorNode [], VectorNode [SymbolNode ''b.c'']]"
  using import_require_sorted_by_key [of
      "ListNode [KeywordNode '':require'', VectorNode [SymbolNode ''b.c''],
         CommentNode ''; x'', NewlineNode, VectorNode [], NewlineNode, SymbolNode ''c.d'']"
      "KeywordNode '':require''"
      "[VectorNode [SymbolNode ''b.c''], CommentNode ''; x'', NewlineNode, VectorNode [],
        NewlineNode, SymbolNode ''c.d'']"]
  by (simp add: sortable_def semantic_def nodeKey_def)

subsection \<open>The dispatch value of a defmethod\<close>

lemma length_ge5:
  assumes "5 \<le> length xs"
  obtains a b c d e rest where "xs = a # b # c # d # e # rest"
proof -
  from assms obtain a xs1 where 1: "xs = a # xs1" "4 \<le> length xs1" by (cases xs) auto
  then obtain b xs2 where 2: "xs1 = b # xs2" "3 \<le> length xs2" by (cases xs1) auto
  then obtain c xs3 where 3: "xs2 = c # xs3" "2 \<le> length xs3" by (cases xs2) auto
  then obtain d xs4 where 4: "xs3 = d # xs4" "1 \<le> length xs4" by (cases xs3) auto
  then obtain e xs5 where 5: "xs4 = e # xs5" by (cases xs4) auto
  with 1 2 3 4 that show thesis by simp
qed

text \<open>
  C9, as the claim states it: where a newline already follows the dispatch value the pass
  simply swaps the newline and the dispatch value, and every form whose children begin
  with defmethod, name, newline, keyword is rewritten. With a newline after the dispatch
  value the result is not the swapped list, which would keep both newlines; and the form
  of exactly these four children is left as it is.
\<close>

theorem defmethod_swap_counterexample:
  "fixDefmethodDispatchVal (ListNode [SymbolNode ''defmethod'', SymbolNode ''foo'', NewlineNode,
       KeywordNode '':bar'', NewlineNode, VectorNode [SymbolNode ''x'']]) \<noteq>
     ListNode [SymbolNode ''defmethod'', SymbolNode ''foo'', KeywordNode '':bar'', NewlineNode,
       NewlineNode, VectorNode [SymbolNode ''x'']] \<and>
   fixDefmethodDispatchVal (ListNode [SymbolNode ''defmethod'', SymbolNode ''foo'', NewlineNode,
       KeywordNode '':bar'']) =
     ListNode [SymbolNode ''defmethod'', SymbolNode ''foo'', NewlineNode, KeywordNode '':bar'']"
  by (simp add: fixDefmethodDispatchVal_def)

text \<open>
  C9, amended: for a form with at least five children whose third child is a newline and
  whose fourth is a keyword, the pass puts the dispatch value right after the name and a
  newline right after the dispatch value: when a newline already follows the dispatch
  value, the newline before it is removed, otherwise the newline and the dispatch value
  are swapped; nothing else of the form changes. Every other shape, a form of fewer than
  five children included, is left untouched.
\<close>

theorem defmethod_dispatch_val_joined:
  "(5 \<le> length (Children n) \<and> Newline (Children n ! 2) \<and> Keyword (Children n ! 3) \<longrightarrow>
      Children (fixDefmethodDispatchVal n) =
        take 2 (Children n) @ [Children n ! 3] @
        (if Newline (Children n ! 4) then [] else [Children n ! 2]) @ drop 4 (Children n) \<and>
      Newline (Children (fixDefmethodDispatchVal n) ! 3) \<and>
      SetChildren (fixDefmethodDispatchVal n) (Children n) = n) \<and>
   (\<not> (5 \<le> length (Children n) \<and> Newline (Children n ! 2) \<and> Keyword (Children n ! 3)) \<longrightarrow>
      fixDefmethodDispatchVal n = n)"
proof (intro conjI impI)
  assume a: "5 \<le> length (Children n) \<and> Newline (Children n ! 2) \<and> Keyword (Children n ! 3)"
  then obtain k cs where n: "n = SeqNode k cs" by (cases n) auto
  with a obtain x0 x1 x2 x3 x4 rest where c: "cs = x0 # x1 # x2 # x3 # x4 # rest"
    by (auto elim: length_ge5)
  from a n c have x: "Newline x2" "Keyword x3" by auto
  have f: "fixDefmethodDispatchVal n =
      SeqNode k (if Newline x4 then [x0, x1, x3, x4] @ rest else [x0, x1, x3, x2, x4] @ rest)"
    using x by (simp add: fixDefmethodDispatchVal_def n c)
  show "Children (fixDefmethodDispatchVal n) =
        take 2 (Children n) @ [Children n ! 3] @
        (if Newline (Children n ! 4) then [] else [Children n ! 2]) @ drop 4 (Children n)"
    by (simp add: f) (simp add: n c)
  show "Newline (Children (fixDefmethodDispatchVal n) ! 3)" using x by (simp add: f)
  show "SetChildren (fixDefmethodDispatchVal n) (Children n) = n"
    by (simp add: f) (simp add: n)
next
  assume "\<not> (5 \<le> length (Children n) \<and> Newline (Children n ! 2) \<and> Keyword (Children n ! 3))"
  then show "fixDefmethodDispatchVal n = n"
    by (auto simp: fixDefmethodDispatchVal_def Let_def)
qed

text \<open>The theorem at a form without, one with, and one that needs no newline moved.\<close>

theorem defmethod_dispatch_val_joined_witness:
  "fixDefmethodDispatchVal (ListNode [SymbolNode ''defmethod'', SymbolNode ''foo'', NewlineNode,
       KeywordNode '':bar'', VectorNode [SymbolNode ''x''], SymbolNode ''x'']) =
     ListNode [SymbolNode ''defmethod'', SymbolNode ''foo'', KeywordNode '':bar'', NewlineNode,
       VectorNode [SymbolNode ''x''], SymbolNode ''x''] \<and>
   fixDefmethodDispatchVal (ListNode [SymbolNode ''defmethod'', SymbolNode ''foo'', NewlineNode,
       KeywordNode '':bar'', NewlineNode, VectorNode [SymbolNode ''x'']]) =
     ListNode [SymbolNode ''defmethod'', SymbolNode ''foo'', KeywordNode '':bar'', NewlineNode,
       VectorNode [SymbolNode ''x'']] \<and>
   fixDefmethodDispatchVal (ListNode [SymbolNode ''defmethod'', SymbolNode ''foo'',
       KeywordNode '':bar'', NewlineNode, VectorNode [SymbolNode ''x'']]) =
     ListNode [SymbolNode ''defmethod'', SymbolNode ''foo'',
       KeywordNode '':bar'', NewlineNode, VectorNode [SymbolNode ''x'']]"
  using defmethod_dispatch_val_joined [of "ListNode [SymbolNode ''defmethod'', SymbolNode ''foo'',
       NewlineNode, KeywordNode '':bar'', VectorNode [SymbolNode ''x''], SymbolNode ''x'']"]
    defmethod_dispatch_val_joined [of "ListNode [SymbolNode ''defmethod'', SymbolNode ''foo'',
       NewlineNode, KeywordNode '':bar'', NewlineNode, VectorNode [SymbolNode ''x'']]"]
    defmethod_dispatch_val_joined [of "ListNode [SymbolNode ''defmethod'', SymbolNode ''foo'',
       KeywordNode '':bar'', NewlineNode, VectorNode [SymbolNode ''x'']]"]
  by (simp add: fixDefmethodDispatchVal_def)

subsection \<open>The passes that only move or remove newlines\<close>

lemma Newline_denl [simp]: "Newline (denl n) = Newline n"
  by (cases n) auto

lemma Comment_denl [simp]: "Comment (denl n) = Comment n"
  by (cases n) auto

lemma semantic_denl [simp]: "semantic (denl n) = semantic n"
  by (simp add: semantic_def)

lemma sem_denl: "sem (denl n) = sem n"
proof (induction n rule: denl.induct)
  case (1 k cs)
  have "filter semantic (map denl (filter (\<lambda>c. \<not> Newline c) cs)) =
        map denl (filter semantic cs)"
    by (induction cs) (auto simp: semantic_def)
  moreover have "map sem (map denl (filter semantic cs)) = map sem (filter semantic cs)"
    using 1 by (auto simp: semantic_def)
  ultimately show ?case by simp
qed simp_all

lemma comments_denl: "comments (denl n) = comments n"
proof (induction n rule: denl.induct)
  case (1 k cs)
  have "sum_list (map comments (map denl (filter (\<lambda>c. \<not> Newline c) cs))) =
        sum_list (map comments (filter (\<lambda>c. \<not> Newline c) cs))"
    using 1 by (intro arg_cong [where f = sum_list]) auto
  also have "\<dots> = sum_list (map comments cs)"
  proof (induction cs)
    case (Cons c cs)
    then show ?case by (cases c) auto
  qed simp
  finally show ?case by simp
qed simp_all

lemma sem_roots_denl: "sem_roots (denl_roots rs) = sem_roots rs"
proof -
  have "filter semantic (map denl (filter (\<lambda>c. \<not> Newline c) rs)) = map denl (filter semantic rs)"
    by (induction rs) (auto simp: semantic_def)
  then show ?thesis by (simp add: sem_roots_def denl_roots_def sem_denl)
qed

lemma comments_roots_denl: "comments_roots (denl_roots rs) = comments_roots rs"
  using comments_denl [of "SeqNode ListK rs"] by (simp add: comments_roots_def denl_roots_def)

lemma trimNewlines_split:
  "\<exists>ys. nodes = trimNewlines nodes @ ys \<and> list_all Newline ys"
proof (induction nodes rule: trimNewlines.induct)
  case (1 nodes)
  show ?case
  proof (cases "length nodes > 0 \<and> \<not> (length nodes \<ge> 2 \<and> Comment (nodes ! (length nodes - 2)))
      \<and> Newline (nodes ! (length nodes - 1))")
    case True
    then have t: "trimNewlines nodes = trimNewlines (butlast nodes)"
      by (subst trimNewlines.simps) auto
    from True have "\<exists>ys. butlast nodes = trimNewlines (butlast nodes) @ ys \<and> list_all Newline ys"
      by (intro "1.IH") auto
    then obtain ys where ys: "butlast nodes = trimNewlines (butlast nodes) @ ys" "list_all Newline ys"
      by blast
    from True have ne: "nodes \<noteq> []" by auto
    then have "nodes = butlast nodes @ [last nodes]" by simp
    with ys(1) have "nodes = trimNewlines nodes @ (ys @ [last nodes])"
      by (metis append_assoc t)
    moreover from True ne have "Newline (last nodes)" by (simp add: last_conv_nth)
    ultimately show ?thesis using ys(2) by (intro exI [of _ "ys @ [last nodes]"]) simp
  next
    case False
    then have "trimNewlines nodes = nodes"
      by (subst trimNewlines.simps) auto
    then show ?thesis by simp
  qed
qed

lemma trimNewlines_Nil [simp]: "trimNewlines [] = []"
  by (subst trimNewlines.simps) simp

lemma filter_trimNewlines:
  "filter (\<lambda>c. \<not> Newline c) (trimNewlines nodes) = filter (\<lambda>c. \<not> Newline c) nodes"
proof -
  from trimNewlines_split [of nodes] obtain ys where
    ys: "nodes = trimNewlines nodes @ ys" "list_all Newline ys" by blast
  then have "filter (\<lambda>c. \<not> Newline c) ys = []" by (auto simp: list_all_iff filter_empty_conv)
  with ys(1) show ?thesis by (metis append_Nil2 filter_append)
qed

lemma kind_removeTrailingNewlines [simp]:
  "Newline (removeTrailingNewlines n) = Newline n"
  "Comment (removeTrailingNewlines n) = Comment n"
  by (cases n; simp)+

lemma denl_removeTrailingNewlines: "denl (removeTrailingNewlines n) = denl n"
proof (induction n rule: removeTrailingNewlines.induct)
  case (1 k nodes)
  have "filter (\<lambda>c. \<not> Newline c) (map removeTrailingNewlines (trimNewlines nodes)) =
        map removeTrailingNewlines (filter (\<lambda>c. \<not> Newline c) (trimNewlines nodes))"
    by (simp add: filter_map comp_def)
  moreover have "map denl (map removeTrailingNewlines (filter (\<lambda>c. \<not> Newline c) (trimNewlines nodes)))
      = map denl (filter (\<lambda>c. \<not> Newline c) (trimNewlines nodes))"
    using 1 by (cases "length nodes = 0") auto
  ultimately show ?case by (simp add: filter_trimNewlines)
qed simp_all

lemma denl_fixDefnArglist: "denl (fixDefnArglist n) = denl n"
proof (cases "5 \<le> length (Children n)")
  case True
  then obtain k cs where n: "n = SeqNode k cs" by (cases n) auto
  with True obtain x0 x1 x2 x3 x4 rest where c: "cs = x0 # x1 # x2 # x3 # x4 # rest"
    by (auto elim: length_ge5)
  show ?thesis by (simp add: fixDefnArglist_def n c Let_def)
next
  case False
  then show ?thesis by (simp add: fixDefnArglist_def)
qed

lemma denl_fixDefmethodDispatchVal: "denl (fixDefmethodDispatchVal n) = denl n"
proof (cases "5 \<le> length (Children n)")
  case True
  then obtain k cs where n: "n = SeqNode k cs" by (cases n) auto
  with True obtain x0 x1 x2 x3 x4 rest where c: "cs = x0 # x1 # x2 # x3 # x4 # rest"
    by (auto elim: length_ge5)
  show ?thesis by (simp add: fixDefmethodDispatchVal_def n c Let_def)
next
  case False
  then show ?thesis by (simp add: fixDefmethodDispatchVal_def)
qed

lemma filter_blankLines:
  "filter (\<lambda>c. \<not> Newline c) (blankLines c nodes) = filter (\<lambda>c. \<not> Newline c) nodes"
  by (induction nodes arbitrary: c) (auto simp: Let_def)

lemma kind_removeExtraBlankLinesRecursive [simp]:
  "Newline (removeExtraBlankLinesRecursive n) = Newline n"
  "Comment (removeExtraBlankLinesRecursive n) = Comment n"
  by (cases n; simp)+

lemma denl_removeExtraBlankLinesRecursive: "denl (removeExtraBlankLinesRecursive n) = denl n"
proof (induction n rule: removeExtraBlankLinesRecursive.induct)
  case (1 k nodes)
  define nodes1 where "nodes1 = (if length nodes > 2 then removeExtraBlankLines nodes else nodes)"
  have f: "filter (\<lambda>c. \<not> Newline c) nodes1 = filter (\<lambda>c. \<not> Newline c) nodes"
    by (simp add: nodes1_def removeExtraBlankLines_def filter_blankLines)
  have "filter (\<lambda>c. \<not> Newline c) (map removeExtraBlankLinesRecursive nodes1) =
        map removeExtraBlankLinesRecursive (filter (\<lambda>c. \<not> Newline c) nodes1)"
    by (simp add: filter_map comp_def)
  moreover have "map denl (map removeExtraBlankLinesRecursive (filter (\<lambda>c. \<not> Newline c) nodes1))
      = map denl (filter (\<lambda>c. \<not> Newline c) nodes1)"
    using 1 by (cases "length nodes = 0") (auto simp: nodes1_def)
  ultimately show ?case by (simp add: f flip: nodes1_def)
qed simp_all

lemma kind_fixDefnArglist [simp]:
  "Newline (fixDefnArglist n) = Newline n"
  by (cases n) (simp_all add: fixDefnArglist_def Let_def)

lemma kind_fixDefmethodDispatchVal [simp]:
  "Newline (fixDefmethodDispatchVal n) = Newline n"
  by (cases n) (simp_all add: fixDefmethodDispatchVal_def Let_def)

lemma applyRoot_afterSort:
  "applyRoot transforms root =
     map_option (afterSort transforms)
       (if transforms TransformSortImportRequire \<and> FnFormSymbol root [''ns'']
        then sortNS root else Some root)"
  by (simp add: applyRoot_def afterSort_def Let_def split: option.splits)

lemma denl_afterSort: "denl (afterSort transforms r) = denl r"
  by (simp add: afterSort_def Let_def denl_removeTrailingNewlines denl_fixDefnArglist
      denl_fixDefmethodDispatchVal denl_removeExtraBlankLinesRecursive)

lemma Newline_afterSort [simp]: "Newline (afterSort transforms r) = Newline r"
  by (simp add: afterSort_def Let_def)

lemma those_map_Some: "those (map (\<lambda>x. Some (f x)) xs) = Some (map f xs)"
  by (induction xs) auto

lemma denl_roots_map:
  assumes "\<And>r. denl (f r) = denl r" and "\<And>r. Newline (f r) = Newline r"
  shows "denl_roots (map f rs) = denl_roots rs"
  using assms by (induction rs) (auto simp: denl_roots_def)

lemma denl_roots_removeExtraBlankLines:
  "denl_roots (removeExtraBlankLines rs) = denl_roots rs"
  by (simp add: denl_roots_def removeExtraBlankLines_def filter_blankLines)

lemma applyTransforms_no_sort:
  assumes "\<not> transforms TransformSortImportRequire"
  shows "\<exists>t1. applyTransforms t transforms = Some t1 \<and>
           denl_roots (Roots t1) = denl_roots (Roots t)"
proof -
  from assms have "map (applyRoot transforms) (Roots t) =
      map (\<lambda>r. Some (afterSort transforms r)) (Roots t)"
    by (simp add: applyRoot_afterSort)
  then have th: "those (map (applyRoot transforms) (Roots t)) =
      Some (map (afterSort transforms) (Roots t))"
    by (simp only: those_map_Some)
  have "denl_roots (map (afterSort transforms) (Roots t)) = denl_roots (Roots t)"
    by (rule denl_roots_map) (simp_all add: denl_afterSort)
  then show ?thesis
    by (simp add: applyTransforms_def th denl_roots_removeExtraBlankLines)
qed

subsection \<open>Applying a pass twice\<close>

lemma trimNewlines_fix:
  "trimNewlines nodes = nodes \<longleftrightarrow>
     \<not> (length nodes > 0 \<and> \<not> (length nodes \<ge> 2 \<and> Comment (nodes ! (length nodes - 2)))
        \<and> Newline (nodes ! (length nodes - 1)))"
proof (cases "length nodes > 0 \<and> \<not> (length nodes \<ge> 2 \<and> Comment (nodes ! (length nodes - 2)))
      \<and> Newline (nodes ! (length nodes - 1))")
  case True
  then have "trimNewlines nodes = trimNewlines (butlast nodes)"
    by (subst trimNewlines.simps) auto
  moreover have "length (trimNewlines (butlast nodes)) \<le> length (butlast nodes)"
    using trimNewlines_split [of "butlast nodes"] by (metis le_add1 length_append)
  moreover from True have "length (butlast nodes) < length nodes" by simp
  ultimately have "length (trimNewlines nodes) < length nodes" by simp
  with True show ?thesis by auto
next
  case False
  then have "trimNewlines nodes = nodes"
    by (subst trimNewlines.simps) auto
  with False show ?thesis by simp
qed

lemma trimNewlines_idem: "trimNewlines (trimNewlines nodes) = trimNewlines nodes"
proof (induction nodes rule: trimNewlines.induct)
  case (1 nodes)
  show ?case
  proof (cases "length nodes > 0 \<and> \<not> (length nodes \<ge> 2 \<and> Comment (nodes ! (length nodes - 2)))
      \<and> Newline (nodes ! (length nodes - 1))")
    case True
    then have t: "trimNewlines nodes = trimNewlines (butlast nodes)"
      by (subst trimNewlines.simps) auto
    from True have "trimNewlines (trimNewlines (butlast nodes)) = trimNewlines (butlast nodes)"
      by (intro "1.IH") auto
    with t show ?thesis by simp
  next
    case False
    then have "trimNewlines nodes = nodes" by (simp add: trimNewlines_fix)
    then show ?thesis by simp
  qed
qed

lemma trimNewlines_map:
  assumes "\<And>x. Newline (f x) = Newline x" and "\<And>x. Comment (f x) = Comment x"
  shows "trimNewlines (map f nodes) = map f (trimNewlines nodes)"
proof (induction nodes rule: trimNewlines.induct)
  case (1 nodes)
  let ?c = "\<lambda>ns. length ns > 0 \<and> \<not> (length ns \<ge> 2 \<and> Comment (ns ! (length ns - 2)))
      \<and> Newline (ns ! (length ns - 1))"
  have c: "?c (map f nodes) = ?c nodes" using assms by (cases "nodes = []") auto
  show ?case
  proof (cases "?c nodes")
    case True
    then have t: "trimNewlines nodes = trimNewlines (butlast nodes)"
      by (subst trimNewlines.simps) auto
    from True c have "trimNewlines (map f nodes) = trimNewlines (butlast (map f nodes))"
      by (subst trimNewlines.simps) auto
    also have "\<dots> = trimNewlines (map f (butlast nodes))" by (simp add: map_butlast)
    also from True have "\<dots> = map f (trimNewlines (butlast nodes))"
      by (intro "1.IH") auto
    finally show ?thesis by (simp add: t)
  next
    case False
    then have "trimNewlines nodes = nodes" by (simp add: trimNewlines_fix)
    moreover from False c have "trimNewlines (map f nodes) = map f nodes"
      by (simp add: trimNewlines_fix)
    ultimately show ?thesis by simp
  qed
qed

lemma removeTrailingNewlines_idem:
  "removeTrailingNewlines (removeTrailingNewlines n) = removeTrailingNewlines n"
proof (induction n rule: removeTrailingNewlines.induct)
  case (1 k nodes)
  show ?case
  proof (cases "length nodes = 0")
    case True
    then show ?thesis by simp
  next
    case False
    let ?ns = "map removeTrailingNewlines (trimNewlines nodes)"
    have t: "trimNewlines ?ns = ?ns"
      by (simp add: trimNewlines_map trimNewlines_idem)
    have "map removeTrailingNewlines ?ns = ?ns"
      using "1.IH" [OF False] by simp
    with t False show ?thesis by simp
  qed
qed simp_all

lemma length_blankLines: "length (blankLines c nodes) \<le> length nodes"
  by (induction nodes arbitrary: c) (auto simp: Let_def le_SucI)

lemma blankLines_fix_mono:
  assumes "blankLines d nodes = nodes" and "c \<le> d"
  shows "blankLines c nodes = nodes"
  using assms
proof (induction nodes arbitrary: c d)
  case Nil
  then show ?case by simp
next
  case (Cons x xs)
  show ?case
  proof (cases "Newline x")
    case True
    have d2: "d + 1 \<le> 2"
    proof (rule ccontr)
      assume "\<not> d + 1 \<le> 2"
      with True Cons.prems(1) have "blankLines (d + 1) xs = x # xs" by (simp add: Let_def)
      with length_blankLines [of "d + 1" xs] show False by simp
    qed
    with True Cons.prems(1) have "blankLines (d + 1) xs = xs" by (simp add: Let_def)
    from Cons.IH [OF this, of "c + 1"] Cons.prems(2) have "blankLines (c + 1) xs = xs" by simp
    with True d2 Cons.prems(2) show ?thesis by (simp add: Let_def)
  next
    case False
    with Cons.prems(1) show ?thesis by (simp add: Let_def)
  qed
qed

lemma blankLines_idem: "blankLines c (blankLines c nodes) = blankLines c nodes"
proof (induction nodes arbitrary: c)
  case Nil
  then show ?case by simp
next
  case (Cons x xs)
  show ?case
  proof (cases "Newline x")
    case True
    show ?thesis
    proof (cases "c + 1 \<le> 2")
      case le: True
      with True Cons.IH [of "c + 1"] show ?thesis by (simp add: Let_def)
    next
      case gt: False
      from Cons.IH [of "c + 1"] have "blankLines c (blankLines (c + 1) xs) = blankLines (c + 1) xs"
        by (rule blankLines_fix_mono) simp
      with True gt show ?thesis by (simp add: Let_def)
    qed
  next
    case False
    with Cons.IH [of 0] show ?thesis by (simp add: Let_def)
  qed
qed

lemma blankLines_map:
  assumes "\<And>x. Newline (f x) = Newline x"
  shows "blankLines c (map f nodes) = map f (blankLines c nodes)"
  using assms by (induction nodes arbitrary: c) (auto simp: Let_def)

lemma removeExtraBlankLines_idem:
  "removeExtraBlankLines (removeExtraBlankLines nodes) = removeExtraBlankLines nodes"
  by (simp add: removeExtraBlankLines_def blankLines_idem)

lemma removeExtraBlankLinesRecursive_idem:
  "removeExtraBlankLinesRecursive (removeExtraBlankLinesRecursive n) =
     removeExtraBlankLinesRecursive n"
proof (induction n rule: removeExtraBlankLinesRecursive.induct)
  case (1 k nodes)
  show ?case
  proof (cases "length nodes = 0")
    case True
    then show ?thesis by simp
  next
    case False
    define nodes1 where "nodes1 = (if length nodes > 2 then removeExtraBlankLines nodes else nodes)"
    let ?ns = "map removeExtraBlankLinesRecursive nodes1"
    have r: "removeExtraBlankLinesRecursive (SeqNode k nodes) = SeqNode k ?ns"
      using False by (simp add: nodes1_def)
    have m: "map removeExtraBlankLinesRecursive ?ns = ?ns"
      using "1.IH" [OF False] by (simp add: nodes1_def)
    have b: "(if length ?ns > 2 then removeExtraBlankLines ?ns else ?ns) = ?ns"
    proof (cases "length nodes > 2")
      case True
      then have "removeExtraBlankLines ?ns = ?ns"
        by (simp add: nodes1_def removeExtraBlankLines_def blankLines_map blankLines_idem)
      then show ?thesis by simp
    next
      case False
      then show ?thesis by (simp add: nodes1_def)
    qed
    show ?thesis
    proof (cases "length ?ns = 0")
      case True
      then show ?thesis unfolding r by simp
    next
      case ne: False
      then have "removeExtraBlankLinesRecursive (SeqNode k ?ns) =
          SeqNode k (map removeExtraBlankLinesRecursive
            (if length ?ns > 2 then removeExtraBlankLines ?ns else ?ns))"
        by (simp del: length_map map_map)
      with b m show ?thesis unfolding r by simp
    qed
  qed
qed simp_all

lemma fixDefnArglist_idem: "fixDefnArglist (fixDefnArglist n) = fixDefnArglist n"
proof (cases "5 \<le> length (Children n)")
  case True
  then obtain k cs where n: "n = SeqNode k cs" by (cases n) auto
  with True obtain x0 x1 x2 x3 x4 rest where c: "cs = x0 # x1 # x2 # x3 # x4 # rest"
    by (auto elim: length_ge5)
  show ?thesis by (cases x3) (auto simp: fixDefnArglist_def n c Let_def)
next
  case False
  then show ?thesis by (simp add: fixDefnArglist_def)
qed

lemma fixDefmethodDispatchVal_idem:
  "fixDefmethodDispatchVal (fixDefmethodDispatchVal n) = fixDefmethodDispatchVal n"
proof (cases "5 \<le> length (Children n)")
  case True
  then obtain k cs where n: "n = SeqNode k cs" by (cases n) auto
  with True obtain x0 x1 x2 x3 x4 rest where c: "cs = x0 # x1 # x2 # x3 # x4 # rest"
    by (auto elim: length_ge5)
  show ?thesis by (cases x3) (auto simp: fixDefmethodDispatchVal_def n c Let_def)
next
  case False
  then show ?thesis by (simp add: fixDefmethodDispatchVal_def)
qed

lemma FnFormSymbol_fixDefnArglist [simp]:
  "FnFormSymbol (fixDefnArglist n) syms = FnFormSymbol n syms"
proof (cases "5 \<le> length (Children n)")
  case True
  then obtain k cs where n: "n = SeqNode k cs" by (cases n) auto
  with True obtain x0 x1 x2 x3 x4 rest where c: "cs = x0 # x1 # x2 # x3 # x4 # rest"
    by (auto elim: length_ge5)
  show ?thesis by (cases k; cases x0) (auto simp: fixDefnArglist_def n c Let_def)
next
  case False
  then show ?thesis by (simp add: fixDefnArglist_def)
qed

lemma FnFormSymbol_fixDefmethodDispatchVal [simp]:
  "FnFormSymbol (fixDefmethodDispatchVal n) syms = FnFormSymbol n syms"
proof (cases "5 \<le> length (Children n)")
  case True
  then obtain k cs where n: "n = SeqNode k cs" by (cases n) auto
  with True obtain x0 x1 x2 x3 x4 rest where c: "cs = x0 # x1 # x2 # x3 # x4 # rest"
    by (auto elim: length_ge5)
  show ?thesis by (cases k; cases x0) (auto simp: fixDefmethodDispatchVal_def n c Let_def)
next
  case False
  then show ?thesis by (simp add: fixDefmethodDispatchVal_def)
qed

subsection \<open>The sort pass on a tree\<close>

lemma FnFormKeyword_Children:
  assumes "FnFormKeyword n kws"
  obtains s rest where "n = SeqNode ListK (KeywordNode s # rest)" and "s \<in> set kws"
  using assms by (cases "(n, kws)" rule: FnFormKeyword.cases) auto

lemma FnFormSymbol_Children:
  assumes "FnFormSymbol n syms"
  obtains s rest where "n = SeqNode ListK (SymbolNode s # rest)" and "s \<in> set syms"
  using assms by (cases "(n, syms)" rule: FnFormSymbol.cases) auto

lemma sortImportRequire_decl:
  assumes "FnFormKeyword n kws"
  shows "\<exists>m. sortImportRequire n = Some m"
proof -
  from assms obtain s rest where n: "n = SeqNode ListK (KeywordNode s # rest)"
    by (rule FnFormKeyword_Children)
  then have "Children n = KeywordNode s # rest" by simp
  from sortImportRequire_out [OF this] show ?thesis by auto
qed

lemma sortNS_sortRoot:
  assumes "FnFormSymbol r [''ns'']"
  shows "sortNS r = Some (sortRoot r)"
proof -
  from assms obtain s rest where r: "r = SeqNode ListK (SymbolNode s # rest)"
    by (rule FnFormSymbol_Children)
  have "map (\<lambda>n. if FnFormKeyword n ['':require'', '':import'']
                  then sortImportRequire n else Some n) rest =
        map (\<lambda>n. Some (sortDecl n)) rest"
    by (auto simp: sortDecl_def dest: sortImportRequire_decl)
  then have "those (map (\<lambda>n. if FnFormKeyword n ['':require'', '':import'']
                  then sortImportRequire n else Some n) rest) = Some (map sortDecl rest)"
    by (simp only: those_map_Some)
  with assms show ?thesis by (simp add: sortNS_def sortRoot_def r)
qed

text \<open>\<^const>\<open>applyTransforms\<close> never panics, and this is the tree it returns.\<close>

lemma applyRoot_total:
  "applyRoot transforms r =
     Some (afterSort transforms (if transforms TransformSortImportRequire then sortRoot r else r))"
  by (auto simp: applyRoot_afterSort sortNS_sortRoot sortRoot_def)

lemma applyTransforms_total:
  "applyTransforms t transforms =
     Some (t\<lparr>Roots :=
       (let roots = map (\<lambda>r. afterSort transforms
              (if transforms TransformSortImportRequire then sortRoot r else r)) (Roots t)
        in if transforms TransformRemoveExtraBlankLines
           then removeExtraBlankLines roots else roots)\<rparr>)"
proof -
  have "those (map (applyRoot transforms) (Roots t)) =
      Some (map (\<lambda>r. afterSort transforms
              (if transforms TransformSortImportRequire then sortRoot r else r)) (Roots t))"
  proof -
    have "applyRoot transforms = (\<lambda>r. Some (afterSort transforms
              (if transforms TransformSortImportRequire then sortRoot r else r)))"
      by (rule ext) (rule applyRoot_total)
    then show ?thesis by (simp only: those_map_Some)
  qed
  then show ?thesis by (simp add: applyTransforms_def Let_def)
qed

subsection \<open>Idempotence\<close>

lemma sortDecl_idem:
  assumes "FnFormKeyword n ['':require'', '':import''] \<Longrightarrow> sortable (entryNodes n)"
  shows "sortDecl (sortDecl n) = sortDecl n"
proof (cases "FnFormKeyword n ['':require'', '':import'']")
  case False
  then show ?thesis by (simp add: sortDecl_def)
next
  case True
  then obtain s rest where n: "n = SeqNode ListK (KeywordNode s # rest)"
    and s: "s \<in> set ['':require'', '':import'']"
    by (rule FnFormKeyword_Children)
  then have ch: "Children n = KeywordNode s # rest" by simp
  from sortImportRequire_out [OF ch] obtain k rest1 where
    out: "sortImportRequire n = Some (SeqNode k (KeywordNode s # rest1))"
    and k: "n = SeqNode k (KeywordNode s # rest)" by blast
  from k n have k: "k = ListK" by simp
  from assms [OF True] have "sortable (filter semantic (tl (Children n)))"
    by (simp add: entryNodes_def)
  from sortImportRequire_idem [OF out this]
  have "sortImportRequire (SeqNode k (KeywordNode s # rest1)) = Some (SeqNode k (KeywordNode s # rest1))" .
  with True out k s show ?thesis by (simp add: sortDecl_def)
qed

lemma sortRoot_idem:
  assumes "FnFormSymbol r [''ns''] \<Longrightarrow>
     \<forall>d\<in>set (tl (Children r)). FnFormKeyword d ['':require'', '':import''] \<longrightarrow> sortable (entryNodes d)"
  shows "sortRoot (sortRoot r) = sortRoot r"
proof (cases "FnFormSymbol r [''ns'']")
  case False
  then show ?thesis by (simp add: sortRoot_def)
next
  case True
  then obtain s rest where r: "r = SeqNode ListK (SymbolNode s # rest)"
    and s: "s \<in> set [''ns'']"
    by (rule FnFormSymbol_Children)
  from assms [OF True] r have "map sortDecl (map sortDecl rest) = map sortDecl rest"
    by (auto intro: sortDecl_idem)
  with True s show ?thesis by (simp add: sortRoot_def r)
qed

lemma afterSort_only_sort [simp]: "afterSort (only TransformSortImportRequire) r = r"
  by (simp add: afterSort_def only_def)

lemma afterSort_idem:
  assumes "T \<noteq> TransformSortImportRequire"
  shows "afterSort (only T) (afterSort (only T) r) = afterSort (only T) r"
  using assms
  by (cases T)
    (simp_all add: afterSort_def only_def removeTrailingNewlines_idem fixDefnArglist_idem
      fixDefmethodDispatchVal_idem removeExtraBlankLinesRecursive_idem)

text \<open>
  C7, as the claim states it: on every tree, applying the sort of imports and requires
  twice gives the tree that applying it once gives. On the namespace form with the
  declaration \<^verbatim>\<open>(:require () [])\<close> the second application swaps the two entries back.
\<close>

theorem sort_twice_counterexample:
  "twice (only TransformSortImportRequire)
     \<lparr>Roots = [ListNode [SymbolNode ''ns'', SymbolNode ''foo'',
        ListNode [KeywordNode '':require'', ListNode [], VectorNode []]]]\<rparr> \<noteq>
   applyTransforms
     \<lparr>Roots = [ListNode [SymbolNode ''ns'', SymbolNode ''foo'',
        ListNode [KeywordNode '':require'', ListNode [], VectorNode []]]]\<rparr>
     (only TransformSortImportRequire)"
  by code_simp

text \<open>
  C7, amended: for every tree and each single enabled transform pass, applying the pass
  twice in succession produces the tree that applying it once produces, provided, for
  the sort of imports and requires, that in every import or require declaration of a
  namespace form every entry is a bare symbol, a list or a vector and at most one entry
  is an empty list or vector.
\<close>

theorem single_pass_idempotent:
  "(T = TransformSortImportRequire \<longrightarrow> list_all (\<lambda>d. sortable (entryNodes d)) (declarations t))
   \<longrightarrow> twice (only T) t = applyTransforms t (only T)"
proof
  assume a: "T = TransformSortImportRequire \<longrightarrow>
    list_all (\<lambda>d. sortable (entryNodes d)) (declarations t)"
  let ?f = "\<lambda>r. afterSort (only T) (if only T TransformSortImportRequire then sortRoot r else r)"
  let ?g = "\<lambda>rs. if only T TransformRemoveExtraBlankLines then removeExtraBlankLines rs else rs"
  have once: "applyTransforms t (only T) = Some (t\<lparr>Roots := ?g (map ?f (Roots t))\<rparr>)"
    by (simp add: applyTransforms_total Let_def)
  have two: "twice (only T) t = Some (t\<lparr>Roots := ?g (map ?f (?g (map ?f (Roots t))))\<rparr>)"
    by (simp add: twice_def applyTransforms_total Let_def)
  have "?g (map ?f (?g (map ?f (Roots t)))) = ?g (map ?f (Roots t))"
  proof (cases "T = TransformSortImportRequire")
    case True
    with a have "\<forall>r\<in>set (Roots t). FnFormSymbol r [''ns''] \<longrightarrow>
        (\<forall>d\<in>set (tl (Children r)). FnFormKeyword d ['':require'', '':import''] \<longrightarrow>
           sortable (entryNodes d))"
      by (auto simp: declarations_def list_all_iff)
    then have "map sortRoot (map sortRoot (Roots t)) = map sortRoot (Roots t)"
      by (auto intro: sortRoot_idem)
    moreover from True have "?f = sortRoot"
      by (intro ext) (simp add: only_def afterSort_def)
    ultimately show ?thesis using True by (simp add: only_def)
  next
    case False
    then have f: "?f = afterSort (only T)" by (simp add: only_def)
    show ?thesis
    proof (cases "T = TransformRemoveExtraBlankLines")
      case True
      then have af: "afterSort (only T) = removeExtraBlankLinesRecursive"
        by (intro ext) (simp add: afterSort_def only_def)
      have "removeExtraBlankLines (map removeExtraBlankLinesRecursive
              (removeExtraBlankLines (map removeExtraBlankLinesRecursive (Roots t)))) =
            removeExtraBlankLines (removeExtraBlankLines
              (map removeExtraBlankLinesRecursive (map removeExtraBlankLinesRecursive (Roots t))))"
        by (simp add: removeExtraBlankLines_def blankLines_map)
      also have "\<dots> = removeExtraBlankLines (map removeExtraBlankLinesRecursive (Roots t))"
        by (simp add: removeExtraBlankLines_idem removeExtraBlankLinesRecursive_idem comp_def)
      finally show ?thesis unfolding f af using True by (simp add: only_def)
    next
      case nb: False
      have "map (afterSort (only T)) (map (afterSort (only T)) (Roots t)) =
            map (afterSort (only T)) (Roots t)"
        using afterSort_idem [OF False] by simp
      with nb show ?thesis unfolding f by (simp add: only_def)
    qed
  qed
  with once two show "twice (only T) t = applyTransforms t (only T)" by simp
qed

text \<open>The theorem at the sort of a namespace form whose entries are sortable.\<close>

theorem single_pass_idempotent_witness:
  "twice (only TransformSortImportRequire)
     \<lparr>Roots = [ListNode [SymbolNode ''ns'', SymbolNode ''foo'',
        ListNode [KeywordNode '':require'', VectorNode [SymbolNode ''b.c''], NewlineNode,
          VectorNode [SymbolNode ''a.b''], NewlineNode, SymbolNode ''c.d'']]]\<rparr> =
   applyTransforms
     \<lparr>Roots = [ListNode [SymbolNode ''ns'', SymbolNode ''foo'',
        ListNode [KeywordNode '':require'', VectorNode [SymbolNode ''b.c''], NewlineNode,
          VectorNode [SymbolNode ''a.b''], NewlineNode, SymbolNode ''c.d'']]]\<rparr>
     (only TransformSortImportRequire)"
  using single_pass_idempotent [of TransformSortImportRequire
     "\<lparr>Roots = [ListNode [SymbolNode ''ns'', SymbolNode ''foo'',
        ListNode [KeywordNode '':require'', VectorNode [SymbolNode ''b.c''], NewlineNode,
          VectorNode [SymbolNode ''a.b''], NewlineNode, SymbolNode ''c.d'']]]\<rparr>"]
  by (simp add: declarations_def entryNodes_def sortable_def semantic_def)

subsection \<open>The semantic nodes\<close>

lemma decl_permuted_sortDecl: "decl_permuted d (sortDecl d)"
proof (cases "FnFormKeyword d ['':require'', '':import'']")
  case False
  then show ?thesis by (simp add: decl_permuted_def sortDecl_def)
next
  case True
  then obtain s rest where d: "d = SeqNode ListK (KeywordNode s # rest)"
    by (rule FnFormKeyword_Children)
  then have ch: "Children d = KeywordNode s # rest" by simp
  from sortImportRequire_out [OF ch] d obtain rest1 where
    out: "sortImportRequire d = Some (SeqNode ListK (KeywordNode s # rest1))"
    and es: "entriesOf rest1 = sort_Stable (entriesOf rest)" by auto
  have "mset (map Node (entriesOf rest1)) = mset (map Node (entriesOf rest))"
    unfolding es using mset_sort_Stable [of "entriesOf rest"] by (metis mset_map)
  then have "mset (filter semantic rest1) = mset (filter semantic rest)"
    by (simp add: semantic_entriesOf)
  with True out show ?thesis by (simp add: decl_permuted_def sortDecl_def d)
qed

lemma ns_permuted_sortRoot: "ns_permuted r (sortRoot r)"
proof (cases "FnFormSymbol r [''ns'']")
  case False
  then show ?thesis by (simp add: ns_permuted_def sortRoot_def)
next
  case True
  then obtain s rest where r: "r = SeqNode ListK (SymbolNode s # rest)"
    by (rule FnFormSymbol_Children)
  have "list_all2 decl_permuted rest (map sortDecl rest)"
    by (simp add: list_all2_map2 list.rel_refl decl_permuted_sortDecl)
  with True show ?thesis by (simp add: ns_permuted_def sortRoot_def r)
qed

lemma denl_roots_afterSort:
  "denl_roots (if c then removeExtraBlankLines (map (afterSort transforms) rs)
               else map (afterSort transforms) rs) = denl_roots rs"
proof -
  have "denl_roots (map (afterSort transforms) rs) = denl_roots rs"
    by (rule denl_roots_map) (simp_all add: denl_afterSort)
  then show ?thesis by (simp add: denl_roots_removeExtraBlankLines)
qed

lemma applyTransforms_sortRoot:
  "\<exists>t1. applyTransforms t transforms = Some t1 \<and>
     denl_roots (Roots t1) =
       denl_roots (if transforms TransformSortImportRequire
                   then map sortRoot (Roots t) else Roots t)"
proof -
  let ?rs = "if transforms TransformSortImportRequire then map sortRoot (Roots t) else Roots t"
  have "map (\<lambda>r. afterSort transforms
          (if transforms TransformSortImportRequire then sortRoot r else r)) (Roots t) =
        map (afterSort transforms) ?rs" by simp
  then show ?thesis
    using denl_roots_afterSort [of "transforms TransformRemoveExtraBlankLines" transforms ?rs]
    by (simp add: applyTransforms_total Let_def)
qed

text \<open>
  C6. Every pass keeps the semantic nodes, the nodes that are neither newlines nor
  comments, at every depth of the tree: the sort of imports and requires changes a tree
  only inside the import and require declarations of its namespace forms, where it keeps
  the first child and permutes the entries; and whatever a configuration does after the
  sort (or without it) leaves the tree, with all newline and comment nodes taken out at
  every depth, exactly as it was, so that no semantic node is deleted, duplicated or
  moved.
\<close>

theorem semantic_nodes_preserved:
  "applyTransforms t (only TransformSortImportRequire) =
     Some (t\<lparr>Roots := map sortRoot (Roots t)\<rparr>) \<and>
   list_all2 ns_permuted (Roots t) (map sortRoot (Roots t)) \<and>
   (\<exists>t1. applyTransforms t transforms = Some t1 \<and>
      sem_roots (Roots t1) =
        sem_roots (if transforms TransformSortImportRequire
                   then map sortRoot (Roots t) else Roots t))"
proof (intro conjI)
  have "(\<lambda>r. afterSort (only TransformSortImportRequire)
          (if only TransformSortImportRequire TransformSortImportRequire then sortRoot r else r))
        = sortRoot"
    by (intro ext) (simp add: only_def afterSort_def)
  then show "applyTransforms t (only TransformSortImportRequire) =
     Some (t\<lparr>Roots := map sortRoot (Roots t)\<rparr>)"
    unfolding applyTransforms_total Let_def by (simp add: only_def)
  show "list_all2 ns_permuted (Roots t) (map sortRoot (Roots t))"
    by (simp add: list_all2_map2 list.rel_refl ns_permuted_sortRoot)
  from applyTransforms_sortRoot [of t transforms] obtain t1 where
    t1: "applyTransforms t transforms = Some t1"
    "denl_roots (Roots t1) = denl_roots (if transforms TransformSortImportRequire
                   then map sortRoot (Roots t) else Roots t)" by blast
  from t1(2) have "sem_roots (denl_roots (Roots t1)) =
      sem_roots (denl_roots (if transforms TransformSortImportRequire
                   then map sortRoot (Roots t) else Roots t))" by simp
  then have "sem_roots (Roots t1) = sem_roots (if transforms TransformSortImportRequire
                   then map sortRoot (Roots t) else Roots t)"
    by (simp only: sem_roots_denl)
  with t1(1) show "\<exists>t1. applyTransforms t transforms = Some t1 \<and>
      sem_roots (Roots t1) =
        sem_roots (if transforms TransformSortImportRequire
                   then map sortRoot (Roots t) else Roots t)" by blast
qed

subsection \<open>The comments\<close>

lemma contentOf_mset:
  assumes "mset es1 = mset es"
  shows "contentOf es1 lc = contentOf es lc"
proof -
  have "sum_list (map entryContent xs) = sum_mset (image_mset entryContent (mset xs))" for xs
    by (induction xs) auto
  with assms show ?thesis by (simp add: contentOf_def)
qed

lemma contentOf_snoc:
  "contentOf (es @ [e]) lc = contentOf es lc + entryContent e"
  by (simp add: contentOf_def)

lemma collect_content:
  assumes "oneBeside a f xs"
    and "a \<Longrightarrow> es \<noteq> [] \<and> (CommentBeside (last es) \<noteq> None) = f"
  shows "contentOf (fst (foldl collect (es, lc, a) xs)) (fst (snd (foldl collect (es, lc, a) xs)))
         = contentOf es lc + mset (filter (\<lambda>c. \<not> Newline c) xs)"
  using assms
proof (induction xs arbitrary: es lc a f)
  case Nil
  then show ?case by simp
next
  case (Cons x xs)
  show ?case
  proof (cases x)
    case (CommentNode s)
    show ?thesis
    proof (cases a)
      case True
      with Cons.prems CommentNode have nf: "\<not> f" and ob: "oneBeside True True xs" by auto
      from Cons.prems(2) [OF True] nf obtain bs e where
        es: "es = bs @ [e]" and e: "CommentBeside e = None"
        by (cases es rule: rev_cases) auto
      let ?es = "bs @ [e\<lparr>CommentBeside := Some (CommentNode s)\<rparr>]"
      have upd: "es[length es - 1 := (es ! (length es - 1))\<lparr>CommentBeside := Some (CommentNode s)\<rparr>]
          = ?es" by (simp add: es)
      have c: "contentOf ?es lc = contentOf es lc + {#CommentNode s#}"
        using e by (simp add: es contentOf_def entryContent_def)
      have "contentOf (fst (foldl collect (?es, lc, True) xs))
              (fst (snd (foldl collect (?es, lc, True) xs)))
         = contentOf ?es lc + mset (filter (\<lambda>c. \<not> Newline c) xs)"
        by (rule Cons.IH [OF ob]) simp
      with c upd True CommentNode show ?thesis by simp
    next
      case False
      with Cons.prems CommentNode have ob: "oneBeside False f xs" by auto
      have "contentOf (fst (foldl collect (es, lc @ [CommentNode s], False) xs))
              (fst (snd (foldl collect (es, lc @ [CommentNode s], False) xs)))
         = contentOf es (lc @ [CommentNode s]) + mset (filter (\<lambda>c. \<not> Newline c) xs)"
        by (rule Cons.IH [OF ob]) simp
      with False CommentNode show ?thesis by (simp add: contentOf_def)
    qed
  next
    case NewlineNode
    with Cons.prems have ob: "oneBeside False f xs" by auto
    have "contentOf (fst (foldl collect (es, lc, False) xs))
              (fst (snd (foldl collect (es, lc, False) xs)))
         = contentOf es lc + mset (filter (\<lambda>c. \<not> Newline c) xs)"
      by (rule Cons.IH [OF ob]) simp
    with NewlineNode show ?thesis by simp
  next
    case (SeqNode k cs)
    let ?es = "es @ [\<lparr>CommentsAbove = lc, CommentBeside = None, Node = x\<rparr>]"
    from Cons.prems SeqNode have ob: "oneBeside True False xs" by auto
    have "contentOf (fst (foldl collect (?es, [], True) xs))
              (fst (snd (foldl collect (?es, [], True) xs)))
         = contentOf ?es [] + mset (filter (\<lambda>c. \<not> Newline c) xs)"
      by (rule Cons.IH [OF ob]) simp
    with SeqNode show ?thesis by (simp add: contentOf_def entryContent_def)
  next
    case (SymbolNode s)
    let ?es = "es @ [\<lparr>CommentsAbove = lc, CommentBeside = None, Node = x\<rparr>]"
    from Cons.prems SymbolNode have ob: "oneBeside True False xs" by auto
    have "contentOf (fst (foldl collect (?es, [], True) xs))
              (fst (snd (foldl collect (?es, [], True) xs)))
         = contentOf ?es [] + mset (filter (\<lambda>c. \<not> Newline c) xs)"
      by (rule Cons.IH [OF ob]) simp
    with SymbolNode show ?thesis by (simp add: contentOf_def entryContent_def)
  next
    case (KeywordNode s)
    let ?es = "es @ [\<lparr>CommentsAbove = lc, CommentBeside = None, Node = x\<rparr>]"
    from Cons.prems KeywordNode have ob: "oneBeside True False xs" by auto
    have "contentOf (fst (foldl collect (?es, [], True) xs))
              (fst (snd (foldl collect (?es, [], True) xs)))
         = contentOf ?es [] + mset (filter (\<lambda>c. \<not> Newline c) xs)"
      by (rule Cons.IH [OF ob]) simp
    with KeywordNode show ?thesis by (simp add: contentOf_def entryContent_def)
  next
    case (StringNode s)
    let ?es = "es @ [\<lparr>CommentsAbove = lc, CommentBeside = None, Node = x\<rparr>]"
    from Cons.prems StringNode have ob: "oneBeside True False xs" by auto
    have "contentOf (fst (foldl collect (?es, [], True) xs))
              (fst (snd (foldl collect (?es, [], True) xs)))
         = contentOf ?es [] + mset (filter (\<lambda>c. \<not> Newline c) xs)"
      by (rule Cons.IH [OF ob]) simp
    with StringNode show ?thesis by (simp add: contentOf_def entryContent_def)
  next
    case (NumberNode s)
    let ?es = "es @ [\<lparr>CommentsAbove = lc, CommentBeside = None, Node = x\<rparr>]"
    from Cons.prems NumberNode have ob: "oneBeside True False xs" by auto
    have "contentOf (fst (foldl collect (?es, [], True) xs))
              (fst (snd (foldl collect (?es, [], True) xs)))
         = contentOf ?es [] + mset (filter (\<lambda>c. \<not> Newline c) xs)"
      by (rule Cons.IH [OF ob]) simp
    with NumberNode show ?thesis by (simp add: contentOf_def entryContent_def)
  qed
qed

lemma filter_above:
  assumes "list_all Comment cs"
  shows "filter (\<lambda>c. \<not> Newline c) (concat (map (\<lambda>cn. [cn, NewlineNode]) cs)) = cs"
  using assms
proof (induction cs)
  case (Cons c cs)
  then show ?case by (cases c) auto
qed simp

lemma filter_emitEntry:
  assumes "wf_entry e"
  shows "mset (filter (\<lambda>c. \<not> Newline c) (emitEntry e)) = entryContent e"
proof -
  from assms have a: "list_all Comment (CommentsAbove e)" and n: "\<not> Newline (Node e)"
    by (auto simp: wf_entry_def semantic_def)
  show ?thesis
  proof (cases "CommentBeside e")
    case None
    with n show ?thesis by (simp add: emitEntry_def entryContent_def filter_above [OF a])
  next
    case (Some c)
    with assms have "\<not> Newline c" by (cases c) (auto simp: wf_entry_def)
    with Some n show ?thesis by (simp add: emitEntry_def entryContent_def filter_above [OF a])
  qed
qed

lemma filter_emitAll:
  assumes "list_all wf_entry es" and "list_all Comment lc"
  shows "mset (filter (\<lambda>c. \<not> Newline c) (emitAll es lc)) = contentOf es lc"
proof -
  have "mset (filter (\<lambda>c. \<not> Newline c) (concat (map emitEntry es))) =
        sum_list (map entryContent es)"
    using assms(1) by (induction es) (auto simp: filter_emitEntry simp del: mset_filter)
  then show ?thesis
    by (simp add: emitAll_def contentOf_def filter_above [OF assms(2)] del: mset_filter)
qed

lemma filter_dropTrailing:
  "filter (\<lambda>c. \<not> Newline c) (tl (dropTrailing (n0 # emitAll es lc))) =
   filter (\<lambda>c. \<not> Newline c) (emitAll es lc)"
proof (cases "dropTrailing (n0 # emitAll es lc) = n0 # emitAll es lc")
  case True
  then show ?thesis by simp
next
  case False
  then have ne: "emitAll es lc \<noteq> []" and
    d: "dropTrailing (n0 # emitAll es lc) = n0 # butlast (emitAll es lc)"
    by (auto simp: dropTrailing_def split: if_splits)
  from ne emitAll_last [OF ne] have "emitAll es lc = butlast (emitAll es lc) @ [NewlineNode]"
    by (metis append_butlast_last_id)
  then have "filter (\<lambda>c. \<not> Newline c) (emitAll es lc) =
      filter (\<lambda>c. \<not> Newline c) (butlast (emitAll es lc))"
    by (metis (mono_tags, lifting) Newline.simps(1) append_Nil2 filter.simps filter_append)
  with d show ?thesis by simp
qed

lemma comments_sum_filter:
  "sum_list (map comments ns) =
   sum_mset (image_mset comments (mset (filter (\<lambda>c. \<not> Newline c) ns)))"
proof (induction ns)
  case (Cons n ns)
  then show ?case by (cases n) auto
qed simp

lemma comments_sortDecl:
  assumes "FnFormKeyword d ['':require'', '':import''] \<Longrightarrow> oneBeside False False (tl (Children d))"
  shows "comments (sortDecl d) = comments d"
proof (cases "FnFormKeyword d ['':require'', '':import'']")
  case False
  then show ?thesis by (simp add: sortDecl_def)
next
  case True
  then obtain s rest where d: "d = SeqNode ListK (KeywordNode s # rest)"
    by (rule FnFormKeyword_Children)
  then have ch: "Children d = KeywordNode s # rest" by simp
  define es where "es = entriesOf rest"
  define lc where "lc = trailingOf rest"
  from sortImportRequire_out [OF ch] d obtain rest1 where
    out: "sortImportRequire d = Some (SeqNode ListK (KeywordNode s # rest1))"
    and r1: "KeywordNode s # rest1 = dropTrailing (KeywordNode s # emitAll (sort_Stable es) lc)"
    by (auto simp: es_def lc_def)
  from collect_wf [of "[]" "[]" False rest]
  have wf: "list_all wf_entry es" and wl: "list_all Comment lc"
    by (simp_all add: es_def lc_def entriesOf_def trailingOf_def)
  have "set (sort_Stable es) = set es" using mset_sort_Stable [of es] by (metis set_mset_mset)
  with wf have wfs: "list_all wf_entry (sort_Stable es)" by (simp add: list_all_iff)
  from r1 have "rest1 = tl (dropTrailing (KeywordNode s # emitAll (sort_Stable es) lc))"
    by (metis list.sel(3))
  then have "mset (filter (\<lambda>c. \<not> Newline c) rest1) = contentOf (sort_Stable es) lc"
    by (simp add: filter_dropTrailing filter_emitAll [OF wfs wl] del: mset_filter)
  also have "\<dots> = contentOf es lc" by (rule contentOf_mset) (rule mset_sort_Stable)
  also have "\<dots> = mset (filter (\<lambda>c. \<not> Newline c) rest)"
    using collect_content [of False False rest "[]" "[]"] assms [OF True] ch
    by (simp add: es_def lc_def entriesOf_def trailingOf_def contentOf_def)
  finally have "sum_list (map comments rest1) = sum_list (map comments rest)"
    by (simp add: comments_sum_filter)
  with True out show ?thesis by (simp add: sortDecl_def d)
qed

lemma comments_sortRoot:
  assumes "FnFormSymbol r [''ns''] \<Longrightarrow>
     \<forall>d\<in>set (tl (Children r)). FnFormKeyword d ['':require'', '':import''] \<longrightarrow>
        oneBeside False False (tl (Children d))"
  shows "comments (sortRoot r) = comments r"
proof (cases "FnFormSymbol r [''ns'']")
  case False
  then show ?thesis by (simp add: sortRoot_def)
next
  case True
  then obtain s rest where r: "r = SeqNode ListK (SymbolNode s # rest)"
    by (rule FnFormSymbol_Children)
  from assms [OF True] r have "map comments (map sortDecl rest) = map comments rest"
    by (auto intro: comments_sortDecl)
  then have "sum_list (map comments (map sortDecl rest)) = sum_list (map comments rest)"
    by (rule arg_cong)
  with True show ?thesis by (simp add: sortRoot_def r comp_def)
qed

text \<open>
  C10, as the claim states it: the sort of imports and requires keeps every comment, also
  when two comments follow the same entry before any newline. Of the two comments after
  the entry \<^verbatim>\<open>a\<close> only the second one is left.
\<close>

theorem second_comment_beside_counterexample:
  "sortImportRequire (ListNode [KeywordNode '':require'', SymbolNode ''a'',
       CommentNode ''; one'', CommentNode ''; two'']) =
     Some (ListNode [KeywordNode '':require'', SymbolNode ''a'', CommentNode ''; two'',
       NewlineNode]) \<and>
   map_option comments (sortImportRequire (ListNode [KeywordNode '':require'', SymbolNode ''a'',
       CommentNode ''; one'', CommentNode ''; two''])) \<noteq>
     Some (comments (ListNode [KeywordNode '':require'', SymbolNode ''a'',
       CommentNode ''; one'', CommentNode ''; two'']))"
  by (simp add: sortImportRequire_def sort_Stable_def insertionSort_def emitEntry_def)

text \<open>
  C10, amended: for every tree and every configuration of the passes, the multiset of
  the comment nodes of the tree, at every depth, is the same after the passes as before,
  provided, when the sort of imports and requires is enabled, that in every import or
  require declaration of a namespace form no entry is followed by more than one comment
  before the next newline or entry. The sort then emits, for each entry, all of its
  leading comment lines and its same-line comment, and appends the unattached comments.
\<close>

theorem comments_preserved:
  "(transforms TransformSortImportRequire \<longrightarrow>
      list_all (\<lambda>d. oneBeside False False (tl (Children d))) (declarations t)) \<longrightarrow>
   (\<exists>t1. applyTransforms t transforms = Some t1 \<and>
      comments_roots (Roots t1) = comments_roots (Roots t))"
proof
  assume a: "transforms TransformSortImportRequire \<longrightarrow>
      list_all (\<lambda>d. oneBeside False False (tl (Children d))) (declarations t)"
  let ?rs = "if transforms TransformSortImportRequire then map sortRoot (Roots t) else Roots t"
  from applyTransforms_sortRoot [of t transforms] obtain t1 where
    t1: "applyTransforms t transforms = Some t1" "denl_roots (Roots t1) = denl_roots ?rs"
    by blast
  from t1(2) have "comments_roots (denl_roots (Roots t1)) = comments_roots (denl_roots ?rs)"
    by simp
  then have c: "comments_roots (Roots t1) = comments_roots ?rs"
    by (simp only: comments_roots_denl)
  have "comments_roots ?rs = comments_roots (Roots t)"
  proof (cases "transforms TransformSortImportRequire")
    case False
    then show ?thesis by simp
  next
    case True
    with a have "\<forall>r\<in>set (Roots t). FnFormSymbol r [''ns''] \<longrightarrow>
        (\<forall>d\<in>set (tl (Children r)). FnFormKeyword d ['':require'', '':import''] \<longrightarrow>
           oneBeside False False (tl (Children d)))"
      by (auto simp: declarations_def list_all_iff)
    then have "map comments (map sortRoot (Roots t)) = map comments (Roots t)"
      by (auto intro: comments_sortRoot)
    then have "sum_list (map comments (map sortRoot (Roots t))) = sum_list (map comments (Roots t))"
      by (rule arg_cong)
    with True show ?thesis by (simp add: comments_roots_def)
  qed
  with c t1(1) show "\<exists>t1. applyTransforms t transforms = Some t1 \<and>
      comments_roots (Roots t1) = comments_roots (Roots t)" by simp
qed

text \<open>
  The theorem at a namespace form with a comment above, a comment beside and an
  unattached comment below the entries, all passes enabled.
\<close>

theorem comments_preserved_witness:
  "\<exists>t1. applyTransforms
       \<lparr>Roots = [ListNode [SymbolNode ''ns'', SymbolNode ''foo'', NewlineNode,
          ListNode [KeywordNode '':require'', NewlineNode, CommentNode ''; above'', NewlineNode,
            SymbolNode ''b'', CommentNode ''; beside'', NewlineNode, SymbolNode ''a'',
            NewlineNode, CommentNode ''; below'']]]\<rparr> DefaultTransforms = Some t1 \<and>
     comments_roots (Roots t1) =
       {#CommentNode ''; below'', CommentNode ''; beside'', CommentNode ''; above''#}"
  using comments_preserved [of DefaultTransforms
       "\<lparr>Roots = [ListNode [SymbolNode ''ns'', SymbolNode ''foo'', NewlineNode,
          ListNode [KeywordNode '':require'', NewlineNode, CommentNode ''; above'', NewlineNode,
            SymbolNode ''b'', CommentNode ''; beside'', NewlineNode, SymbolNode ''a'',
            NewlineNode, CommentNode ''; below'']]]\<rparr>"]
  by (simp add: declarations_def comments_roots_def)

section \<open>Properties of the lexer\<close>

subsection \<open>Reading from a known input\<close>

lemma next_rune_Cons:
  assumes "r_buf (l_input l) = r # rs"
  shows "\<exists>l1. next_rune l = Ok (r, False) l1 \<and> r_buf (l_input l1) = rs \<and>
           r_err (l_input l1) = r_err (l_input l) \<and> l_val l1 = l_val l @ [r] \<and>
           l_tokens l1 = l_tokens l \<and> l_start l1 = l_start l"
  using assms by (simp add: next_rune_def ReadRune_def Let_def)

lemma next_rune_Nil:
  assumes "r_buf (l_input l) = []" and "r_err (l_input l) = None"
  shows "\<exists>l1. next_rune l = Ok (CHR 0x00, True) l1 \<and> r_buf (l_input l1) = [] \<and>
           r_err (l_input l1) = None \<and> l_val l1 = l_val l \<and>
           l_tokens l1 = l_tokens l \<and> l_start l1 = l_start l"
  using assms by (simp add: next_rune_def ReadRune_def Let_def)

lemma scanUntil_found:
  assumes "r_buf (l_input l) = body @ c # rest" and "c \<in> set cs" and "set body \<inter> set cs = {}"
  shows "\<exists>l'. scanUntil cs l = Ok () l' \<and> r_buf (l_input l') = rest \<and>
           l_val l' = l_val l @ body @ [c] \<and> l_tokens l' = l_tokens l \<and>
           l_start l' = l_start l"
  using assms
proof (induction body arbitrary: l)
  case Nil
  from next_rune_Cons [of l c rest] Nil obtain l1 where
    "next_rune l = Ok (c, False) l1" "r_buf (l_input l1) = rest" "l_val l1 = l_val l @ [c]"
    "l_tokens l1 = l_tokens l" "l_start l1 = l_start l" by auto
  with Nil show ?case by (simp add: scanUntil.simps [of cs l])
next
  case (Cons b body)
  from next_rune_Cons [of l b "body @ c # rest"] Cons.prems obtain l1 where
    l1: "next_rune l = Ok (b, False) l1" "r_buf (l_input l1) = body @ c # rest"
    "l_val l1 = l_val l @ [b]" "l_tokens l1 = l_tokens l" "l_start l1 = l_start l" by auto
  from Cons.prems have nb: "b \<notin> set cs" and rest: "set body \<inter> set cs = {}" by auto
  from Cons.IH [OF l1(2) Cons.prems(2) rest] obtain l' where
    "scanUntil cs l1 = Ok () l'" "r_buf (l_input l') = rest"
    "l_val l' = l_val l1 @ body @ [c]" "l_tokens l' = l_tokens l1" "l_start l' = l_start l1"
    by blast
  with l1 nb show ?case by (simp add: scanUntil.simps [of cs l])
qed

lemma scanUntil_eof:
  assumes "r_buf (l_input l) = body" and "r_err (l_input l) = None"
    and "set body \<inter> set cs = {}"
  shows "\<exists>l'. scanUntil cs l = Ok () l' \<and> r_buf (l_input l') = [] \<and>
           l_val l' = l_val l @ body \<and> l_tokens l' = l_tokens l \<and>
           l_start l' = l_start l"
  using assms
proof (induction body arbitrary: l)
  case Nil
  from next_rune_Nil [of l] Nil obtain l1 where
    "next_rune l = Ok (CHR 0x00, True) l1" "r_buf (l_input l1) = []" "l_val l1 = l_val l"
    "l_tokens l1 = l_tokens l" "l_start l1 = l_start l" by auto
  then show ?case by (simp add: scanUntil.simps [of cs l])
next
  case (Cons b body)
  from next_rune_Cons [of l b body] Cons.prems obtain l1 where
    l1: "next_rune l = Ok (b, False) l1" "r_buf (l_input l1) = body"
    "r_err (l_input l1) = r_err (l_input l)"
    "l_val l1 = l_val l @ [b]" "l_tokens l1 = l_tokens l" "l_start l1 = l_start l" by auto
  from Cons.prems have nb: "b \<notin> set cs" and rest: "set body \<inter> set cs = {}" by auto
  from Cons.IH [OF l1(2) _ rest] l1(3) Cons.prems(2) obtain l' where
    "scanUntil cs l1 = Ok () l'" "r_buf (l_input l') = []"
    "l_val l' = l_val l1 @ body" "l_tokens l' = l_tokens l1" "l_start l' = l_start l1"
    by auto
  with l1 nb show ?case by (simp add: scanUntil.simps [of cs l])
qed

subsection \<open>The end of the token sequence\<close>

text \<open>
  C1. The claim: every run of the lexer ends its tokens with exactly one end-of-input
  or error token, also on the input \<^verbatim>\<open>#\<close>. On that input \<^verbatim>\<open>lexDispatch\<close> emits the
  octothorpe token and returns \<^verbatim>\<open>nil\<close>: \<^verbatim>\<open>run\<close> closes the channel, and the octothorpe
  is the only token. The branch of \<^verbatim>\<open>lexOuter\<close> for a sign at the end of the input
  does emit the end-of-input token after its symbol.
\<close>

theorem hash_at_end_has_no_terminal_token:
  "lex_string ''#'' = [(tokOctothorpe, 0, ''#'')] \<and>
   run (lex ''in'' (NewReader ''#'')) = Ok () (lexer_of (run (lex ''in'' (NewReader ''#'')))) \<and>
   l_closed (lexer_of (run (lex ''in'' (NewReader ''#'')))) \<and>
   lex_string ''+'' = [(tokSymbol, 0, ''+''), (tokEOF, 1, [])]"
  by code_simp

subsection \<open>Dispatch tokens\<close>

text \<open>
  C2, as the claim states it: lexing \<^verbatim>\<open>#_foo\<close> yields a dispatch token \<^verbatim>\<open>#_\<close> and then
  a symbol token \<^verbatim>\<open>foo\<close>. No token of that input is the symbol \<^verbatim>\<open>foo\<close>.
\<close>

theorem dispatch_symbol_foo_counterexample:
  "(tokSymbol, ''foo'') \<notin> set (lex_texts ''#_foo'')"
  by code_simp

text \<open>
  C2, amended: when the rune after \<^verbatim>\<open>#\<close> is one of \<^verbatim>\<open>{ ( ' " _\<close>, the lexer sends a
  dispatch token whose text is \<^verbatim>\<open>#\<close> and that rune, and goes on with the input from
  that rune on, which it reads again: lexing \<^verbatim>\<open>#_foo\<close> yields the dispatch token
  \<^verbatim>\<open>#_\<close>, the symbol token \<^verbatim>\<open>_foo\<close> and the end-of-input token.
\<close>

theorem dispatch_rune_is_read_again:
  "(r \<in> {CHR ''{'', CHR ''('', CHR 0x27, CHR 0x22, CHR ''_''} \<longrightarrow> l_val l = [] \<longrightarrow>
      r_buf (l_input l) = CHR ''#'' # r # rest \<longrightarrow>
      (\<exists>l'. loop (Some lexOuter) l = loop (Some lexOuter) l' \<and>
         map tok_text (l_tokens l') = map tok_text (l_tokens l) @ [(tokDispatch, [CHR ''#'', r])] \<and>
         r_buf (l_input l') = r # rest \<and> l_val l' = [])) \<and>
   lex_texts ''#_foo'' = [(tokDispatch, ''#_''), (tokSymbol, ''_foo''), (tokEOF, [])]"
proof (intro conjI impI)
  assume r: "r \<in> {CHR ''{'', CHR ''('', CHR 0x27, CHR 0x22, CHR ''_''}" and v: "l_val l = []"
    and buf: "r_buf (l_input l) = CHR ''#'' # r # rest"
  from next_rune_Cons [OF buf] v obtain l1 where
    l1: "next_rune l = Ok (CHR ''#'', False) l1" "r_buf (l_input l1) = r # rest"
    "l_val l1 = ''#''" "l_tokens l1 = l_tokens l" by auto
  then have s1: "state_lexOuter l = Ok (Some lexDispatch) l1"
    by (simp add: state_lexOuter_def)
  from next_rune_Cons [OF l1(2)] l1 obtain l2 where
    l2: "next_rune l1 = Ok (r, False) l2" "l_val l2 = [CHR ''#'', r]" by auto
  from back_after_next [OF l2(1)] l1 obtain l3 where
    l3: "back_rune l2 = Ok () l3" "r_buf (l_input l3) = r # rest" "l_tokens l3 = l_tokens l"
    by auto
  define l4 where "l4 = synth tokDispatch [CHR ''#'', r] (skip l3)"
  from r l2 l3 have s2: "state_lexDispatch l1 = Ok (Some lexOuter) l4"
    by (auto simp: state_lexDispatch_def l4_def)
  have "loop (Some lexOuter) l = loop (Some lexOuter) l4"
    by (simp add: loop.simps(2) [of lexOuter l] loop.simps(2) [of lexDispatch l1] s1 s2)
  moreover have "map tok_text (l_tokens l4) =
      map tok_text (l_tokens l) @ [(tokDispatch, [CHR ''#'', r])]"
    using l3 by (simp add: l4_def synth_def skip_def tok_text_def)
  moreover have "r_buf (l_input l4) = r # rest" using l3 by (simp add: l4_def)
  moreover have "l_val l4 = []" by (simp add: l4_def synth_def skip_def)
  ultimately show "\<exists>l'. loop (Some lexOuter) l = loop (Some lexOuter) l' \<and>
         map tok_text (l_tokens l') = map tok_text (l_tokens l) @ [(tokDispatch, [CHR ''#'', r])] \<and>
         r_buf (l_input l') = r # rest \<and> l_val l' = []" by blast
next
  show "lex_texts ''#_foo'' = [(tokDispatch, ''#_''), (tokSymbol, ''_foo''), (tokEOF, [])]"
    by code_simp
qed

theorem dispatch_rune_is_read_again_witness:
  "\<exists>l'. loop (Some lexOuter) (lex ''in'' (NewReader ''#_foo'')) = loop (Some lexOuter) l' \<and>
     map tok_text (l_tokens l') = [(tokDispatch, ''#_'')] \<and>
     r_buf (l_input l') = ''_foo'' \<and> l_val l' = []"
  using dispatch_rune_is_read_again [of "CHR ''_''" "lex ''in'' (NewReader ''#_foo'')" "''foo''"]
  by (simp add: lex_def NewReader_def)

subsection \<open>Comments\<close>

text \<open>
  C4, as the claim states it: the newline that ends a comment is not part of the comment
  token's text. On the input of a comment \<^verbatim>\<open>;a\<close>, a newline and \<^verbatim>\<open>b\<close>, the tokens are
  not the comment \<^verbatim>\<open>;a\<close>, the symbol \<^verbatim>\<open>b\<close> and the end of input.
\<close>

theorem comment_without_newline_counterexample:
  "lex_texts '';a\<newline>b'' \<noteq> [(tokComment, '';a''), (tokSymbol, ''b''), (tokEOF, [])]"
  by code_simp

text \<open>
  C4, amended: on reading \<^verbatim>\<open>;\<close> the lexer consumes the runes through the end of the
  line, the newline included, and emits one comment token: the newline is the last rune
  of the comment token's text, and lexing goes on after it. When the input ends before a
  newline, the comment token holds the runes up to the end of the input.
\<close>

theorem comment_takes_newline:
  "(CHR 0x0A \<notin> set body \<longrightarrow> l_val l = [] \<longrightarrow>
      r_buf (l_input l) = CHR '';'' # body @ CHR 0x0A # rest \<longrightarrow>
      (\<exists>l'. loop (Some lexOuter) l = loop (Some lexOuter) l' \<and>
         l_tokens l' = l_tokens l @
           [\<lparr>t_typ = tokComment, t_pos = l_start l, t_val = CHR '';'' # body @ [CHR 0x0A]\<rparr>] \<and>
         r_buf (l_input l') = rest \<and> l_val l' = [])) \<and>
   (CHR 0x0A \<notin> set body \<longrightarrow> l_val l = [] \<longrightarrow>
      r_buf (l_input l) = CHR '';'' # body \<longrightarrow> r_err (l_input l) = None \<longrightarrow>
      (\<exists>l'. loop (Some lexOuter) l = loop (Some lexOuter) l' \<and>
         l_tokens l' = l_tokens l @
           [\<lparr>t_typ = tokComment, t_pos = l_start l, t_val = CHR '';'' # body\<rparr>] \<and>
         r_buf (l_input l') = [] \<and> l_val l' = [])) \<and>
   lex_string '';a\<newline>b'' =
     [(tokComment, 0, '';a\<newline>''), (tokSymbol, 3, ''b''), (tokEOF, 4, [])]"
proof (intro conjI impI)
  assume nl: "CHR 0x0A \<notin> set body" and v: "l_val l = []"
    and buf: "r_buf (l_input l) = CHR '';'' # body @ CHR 0x0A # rest"
  from next_rune_Cons [OF buf] v obtain l1 where
    l1: "next_rune l = Ok (CHR '';'', False) l1" "r_buf (l_input l1) = body @ CHR 0x0A # rest"
    "l_val l1 = '';''" "l_tokens l1 = l_tokens l" "l_start l1 = l_start l" by auto
  then have s1: "state_lexOuter l = Ok (Some lexComment) l1"
    by (simp add: state_lexOuter_def)
  from scanUntil_found [of l1 body "CHR 0x0A" rest "[CHR 0x0A]"] l1 nl obtain l2 where
    l2: "scanUntil [CHR 0x0A] l1 = Ok () l2" "r_buf (l_input l2) = rest"
    "l_val l2 = CHR '';'' # body @ [CHR 0x0A]" "l_tokens l2 = l_tokens l" "l_start l2 = l_start l"
    by auto
  then have s2: "state_lexComment l1 = Ok (Some lexOuter) (emit tokComment l2)"
    by (simp add: state_lexComment_def)
  have "loop (Some lexOuter) l = loop (Some lexOuter) (emit tokComment l2)"
    by (simp add: loop.simps(2) [of lexOuter l] loop.simps(2) [of lexComment l1] s1 s2)
  moreover have "l_tokens (emit tokComment l2) = l_tokens l @
           [\<lparr>t_typ = tokComment, t_pos = l_start l, t_val = CHR '';'' # body @ [CHR 0x0A]\<rparr>]"
    using l2 by (simp add: emit_def skip_def)
  moreover have "r_buf (l_input (emit tokComment l2)) = rest" using l2 by simp
  moreover have "l_val (emit tokComment l2) = []" by (simp add: emit_def skip_def)
  ultimately show "\<exists>l'. loop (Some lexOuter) l = loop (Some lexOuter) l' \<and>
         l_tokens l' = l_tokens l @
           [\<lparr>t_typ = tokComment, t_pos = l_start l, t_val = CHR '';'' # body @ [CHR 0x0A]\<rparr>] \<and>
         r_buf (l_input l') = rest \<and> l_val l' = []" by blast
next
  assume nl: "CHR 0x0A \<notin> set body" and v: "l_val l = []"
    and buf: "r_buf (l_input l) = CHR '';'' # body" and ne: "r_err (l_input l) = None"
  from next_rune_Cons [OF buf] v ne obtain l1 where
    l1: "next_rune l = Ok (CHR '';'', False) l1" "r_buf (l_input l1) = body"
    "r_err (l_input l1) = None"
    "l_val l1 = '';''" "l_tokens l1 = l_tokens l" "l_start l1 = l_start l" by auto
  then have s1: "state_lexOuter l = Ok (Some lexComment) l1"
    by (simp add: state_lexOuter_def)
  from scanUntil_eof [of l1 body "[CHR 0x0A]"] l1 nl obtain l2 where
    l2: "scanUntil [CHR 0x0A] l1 = Ok () l2" "r_buf (l_input l2) = []"
    "l_val l2 = CHR '';'' # body" "l_tokens l2 = l_tokens l" "l_start l2 = l_start l"
    by auto
  then have s2: "state_lexComment l1 = Ok (Some lexOuter) (emit tokComment l2)"
    by (simp add: state_lexComment_def)
  have "loop (Some lexOuter) l = loop (Some lexOuter) (emit tokComment l2)"
    by (simp add: loop.simps(2) [of lexOuter l] loop.simps(2) [of lexComment l1] s1 s2)
  moreover have "l_tokens (emit tokComment l2) = l_tokens l @
           [\<lparr>t_typ = tokComment, t_pos = l_start l, t_val = CHR '';'' # body\<rparr>]"
    using l2 by (simp add: emit_def skip_def)
  moreover have "r_buf (l_input (emit tokComment l2)) = []" using l2 by simp
  moreover have "l_val (emit tokComment l2) = []" by (simp add: emit_def skip_def)
  ultimately show "\<exists>l'. loop (Some lexOuter) l = loop (Some lexOuter) l' \<and>
         l_tokens l' = l_tokens l @
           [\<lparr>t_typ = tokComment, t_pos = l_start l, t_val = CHR '';'' # body\<rparr>] \<and>
         r_buf (l_input l') = [] \<and> l_val l' = []" by blast
next
  show "lex_string '';a\<newline>b'' =
     [(tokComment, 0, '';a\<newline>''), (tokSymbol, 3, ''b''), (tokEOF, 4, [])]"
    by code_simp
qed

theorem comment_takes_newline_witness:
  "(\<exists>l'. loop (Some lexOuter) (lex ''in'' (NewReader '';a\<newline>b'')) = loop (Some lexOuter) l' \<and>
      l_tokens l' = [\<lparr>t_typ = tokComment,
         t_pos = \<lparr>Name = ''in'', Offset = 0, Line = 1, Col = 1\<rparr>, t_val = '';a\<newline>''\<rparr>] \<and>
      r_buf (l_input l') = ''b'' \<and> l_val l' = []) \<and>
   (\<exists>l'. loop (Some lexOuter) (lex ''in'' (NewReader '';a'')) = loop (Some lexOuter) l' \<and>
      l_tokens l' = [\<lparr>t_typ = tokComment,
         t_pos = \<lparr>Name = ''in'', Offset = 0, Line = 1, Col = 1\<rparr>, t_val = '';a''\<rparr>] \<and>
      r_buf (l_input l') = [] \<and> l_val l' = [])"
  using comment_takes_newline [of "''a''" "lex ''in'' (NewReader '';a\<newline>b'')" "''b''"]
    comment_takes_newline [of "''a''" "lex ''in'' (NewReader '';a'')" "[]"]
  by (simp add: lex_def NewReader_def)

subsection \<open>Strings\<close>

text \<open>
  C5, as the claim states it: lexing the six runes \<^verbatim>\<open>"a\"b"\<close> yields a string token
  whose text is the four runes \<^verbatim>\<open>a\"b\<close> between the quotes. No token of that input is
  this string token.
\<close>

theorem string_text_between_quotes_counterexample:
  "(tokString, [CHR ''a'', CHR 0x5C, CHR 0x22, CHR ''b'']) \<notin>
     set (lex_texts [CHR 0x22, CHR ''a'', CHR 0x5C, CHR 0x22, CHR ''b'', CHR 0x22])"
  by code_simp

text \<open>
  C5, amended: lexing \<^verbatim>\<open>"a\"b"\<close> yields exactly one string token, followed by the end of
  input; its text is the whole literal \<^verbatim>\<open>"a\"b"\<close> with both quotes, and the escaped
  quote does not end it. Lexing \<^verbatim>\<open>"unterminated\<close> yields one token, an error token with
  the message \<^verbatim>\<open>reached EOF before string closing quote\<close>.
\<close>

theorem string_token_keeps_quotes:
  "lex_texts [CHR 0x22, CHR ''a'', CHR 0x5C, CHR 0x22, CHR ''b'', CHR 0x22] =
     [(tokString, [CHR 0x22, CHR ''a'', CHR 0x5C, CHR 0x22, CHR ''b'', CHR 0x22]), (tokEOF, [])] \<and>
   lex_texts (CHR 0x22 # ''unterminated'') =
     [(tokError, ''reached EOF before string closing quote'')]"
  by code_simp

subsection \<open>The boundaries of the tokens\<close>



























end
